theory Spec2Isabelle
  imports Main
begin

section \<open>Data model\<close>

text \<open>
  \<^verbatim>\<open>type Note struct { Text string }\<close> (note.go).  The program passes notes around as
  \<^verbatim>\<open>*Note\<close>, so a note pointer is an optional note: \<open>None\<close> is \<^verbatim>\<open>nil\<close>, and
  dereferencing it panics.  A Go slice is an optional list: \<open>None\<close> is the nil slice, whose
  length is zero, \<open>Some []\<close> is an empty slice that is not nil.  A value of the interface
  type \<^verbatim>\<open>error\<close> is either \<^verbatim>\<open>nil\<close> or some error.
\<close>

record Note =
  Text :: string

type_synonym note_ptr = "Note option"

type_synonym 'a slice = "'a list option"

datatype go_error = GoError string

type_synonym error = "go_error option"

text \<open>
  The values that travel over \<^verbatim>\<open>Calls chan Call\<close> (\<^verbatim>\<open>type Call interface{}\<close>).  Every send
  in the program wraps a fresh struct (\<^verbatim>\<open>&allCall{}\<close>, \<^verbatim>\<open>&allResp{notes, err}\<close>,
  \<^verbatim>\<open>&createCall{n}\<close>, \<^verbatim>\<open>&createResp{err}\<close>), so a value in flight is one of these four
  structs behind a pointer that is never nil.
\<close>

datatype Call =
    allCall
  | allResp "note_ptr slice" error
  | createCall note_ptr
  | createResp error

datatype dyn_type = T_allCall | T_allResp | T_createCall | T_createResp

fun type_of :: "Call \<Rightarrow> dyn_type" where
  "type_of allCall = T_allCall"
| "type_of (allResp ns e) = T_allResp"
| "type_of (createCall n) = T_createCall"
| "type_of (createResp e) = T_createResp"

text \<open>
  The run-time panics of the program: a failed type assertion \<^verbatim>\<open>x.(*T)\<close> (the dynamic type
  found, \<open>None\<close> for the nil interface, and the type asserted), a nil pointer dereference,
  a send on a closed channel and the close of a closed channel.
\<close>

datatype panic =
    InterfaceConversion "dyn_type option" dyn_type
  | NilDereference
  | SendOnClosedChannel
  | CloseOfClosedChannel

text \<open>
  What the program reports through \<^verbatim>\<open>testing.T\<close>:
  \<^item> \<open>ExpectedCreate n a\<close> is \<^verbatim>\<open>c.t.Error("expected create with", n, "but was", call.note)\<close>;
  \<^item> \<open>NoAllCall\<close> is \<^verbatim>\<open>c.t.Error("No all call")\<close>;
  \<^item> \<open>NoMoreCalls\<close> is \<^verbatim>\<open>t.Fatal("Did not expect more calls")\<close>.
\<close>

datatype report = ExpectedCreate Note Note | NoAllCall | NoMoreCalls

fun fatal :: "report \<Rightarrow> bool" where
  "fatal (ExpectedCreate n a) = False"
| "fatal NoAllCall = False"
| "fatal NoMoreCalls = True"

section \<open>The grocery list over an injected backend\<close>

text \<open>
  \<^verbatim>\<open>type API interface { Create(*Note) error; All() ([]*Note, error) }\<close>.  A backend that
  runs in the caller's goroutine is a pair of state transformers over its own state.
\<close>

record 's API =
  API_Create :: "note_ptr \<Rightarrow> 's \<Rightarrow> error \<times> 's"
  API_All :: "'s \<Rightarrow> (note_ptr slice \<times> error) \<times> 's"

text \<open>\<^verbatim>\<open>HTTPClient\<close> (note.go): \<^verbatim>\<open>Create\<close> returns nil, \<^verbatim>\<open>All\<close> returns \<^verbatim>\<open>[]*Note{}, nil\<close>.\<close>

definition HTTPClient :: "unit API" where
  "HTTPClient = \<lparr>API_Create = (\<lambda>n s. (None, s)), API_All = (\<lambda>s. ((Some [], None), s))\<rparr>"

text \<open>
  The loop of \<^verbatim>\<open>Items\<close>:
  \<^verbatim>\<open>for i := range notes { items[i] = notes[i].Text }\<close>
  over \<^verbatim>\<open>items := make([]string, len(notes))\<close>.  The index runs from \<open>i\<close> to the length of
  \<open>notes\<close>; \<^verbatim>\<open>notes[i].Text\<close> on a nil element panics.
\<close>

function fill_items :: "nat \<Rightarrow> note_ptr list \<Rightarrow> string list \<Rightarrow> panic + string list" where
  "fill_items i notes items =
     (if i < length notes then
        (case notes ! i of
           None \<Rightarrow> Inl NilDereference
         | Some n \<Rightarrow> fill_items (Suc i) notes (items[i := Text n]))
      else Inr items)"
  by pat_completeness auto
termination
  by (relation "measure (\<lambda>(i, notes, items). length notes - i)") auto

declare fill_items.simps [simp del]

text \<open>
  The body of \<^verbatim>\<open>GroceryList.Items\<close> after \<^verbatim>\<open>notes, err := g.API.All()\<close>:
  \<^verbatim>\<open>
  if err != nil { return []string{}, err }
  items := make([]string, len(notes))
  for i := range notes { items[i] = notes[i].Text }
  return items, nil
  \<close>
\<close>

definition slice_list :: "'a slice \<Rightarrow> 'a list" where
  "slice_list s = (case s of None \<Rightarrow> [] | Some xs \<Rightarrow> xs)"

definition Items_result :: "note_ptr slice \<Rightarrow> error \<Rightarrow> panic + (string slice \<times> error)" where
  "Items_result notes err =
     (if err \<noteq> None then Inr (Some [], err)
      else
        (case fill_items 0 (slice_list notes) (replicate (length (slice_list notes)) []) of
           Inl p \<Rightarrow> Inl p
         | Inr items \<Rightarrow> Inr (Some items, None)))"

definition GroceryList_Items :: "'s API \<Rightarrow> 's \<Rightarrow> (panic + (string slice \<times> error)) \<times> 's" where
  "GroceryList_Items api s =
     (case API_All api s of ((notes, err), s') \<Rightarrow> (Items_result notes err, s'))"

text \<open>\<^verbatim>\<open>AddItem\<close>: \<^verbatim>\<open>return g.API.Create(&Note{Text: item})\<close>.\<close>

definition GroceryList_AddItem :: "'s API \<Rightarrow> string \<Rightarrow> 's \<Rightarrow> error \<times> 's" where
  "GroceryList_AddItem api item s = API_Create api (Some \<lparr>Text = item\<rparr>) s"

section \<open>Two goroutines and one unbuffered channel\<close>

text \<open>
  The methods a goroutine of the test can run: the two methods of the double,
  \<^verbatim>\<open>FakeClient.Create\<close> and \<^verbatim>\<open>FakeClient.All\<close>; the verification side,
  \<^verbatim>\<open>AssertCreate\<close>, \<^verbatim>\<open>AssertAll\<close>, \<^verbatim>\<open>Close\<close> and \<^verbatim>\<open>AssertDone\<close>; and the two methods of a
  \<^verbatim>\<open>GroceryList\<close> whose backend is the double, \<^verbatim>\<open>AddItem\<close> and \<^verbatim>\<open>Items\<close>.
  (\<^verbatim>\<open>All\<close> is written \<open>All_notes\<close>: \<open>All\<close> is the universal quantifier of HOL.)
\<close>

datatype op =
    Create note_ptr
  | All_notes
  | Close
  | AssertCreate note_ptr error
  | AssertAll "note_ptr slice" error
  | AssertDone
  | AddItem string
  | Items

text \<open>What a finished method returned to its caller.\<close>

datatype ret =
    RetCreate error
  | RetAll "note_ptr slice" error
  | RetItems "string slice" error
  | RetUnit

text \<open>
  A goroutine: the methods it still has to run (the head is the current one), whether
  the current method has already done its first channel operation (\<open>mid\<close>), what the
  finished methods returned, whether \<^verbatim>\<open>t.Fatal\<close> has ended the goroutine, and the history
  of the values it has sent and received (\<open>None\<close>: the zero value of a closed channel).
\<close>

record thread =
  ops :: "op list"
  mid :: bool
  rets :: "ret list"
  exited :: bool
  sent :: "Call list"
  recvd :: "Call option list"

text \<open>The channel operation a goroutine is at.\<close>

datatype action = Send Call | Recv | CloseChan | Idle

fun op_action :: "op \<Rightarrow> bool \<Rightarrow> action" where
  "op_action (Create n) m = (if m then Recv else Send (createCall n))"
| "op_action All_notes m = (if m then Recv else Send allCall)"
| "op_action Close m = CloseChan"
| "op_action (AssertCreate n e) m = (if m then Send (createResp e) else Recv)"
| "op_action (AssertAll ns e) m = (if m then Send (allResp ns e) else Recv)"
| "op_action AssertDone m = Recv"
| "op_action (AddItem item) m = (if m then Recv else Send (createCall (Some \<lparr>Text = item\<rparr>)))"
| "op_action Items m = (if m then Recv else Send allCall)"

definition next_action :: "thread \<Rightarrow> action" where
  "next_action t =
     (if exited t then Idle
      else (case ops t of [] \<Rightarrow> Idle | p # ps \<Rightarrow> op_action p (mid t)))"

text \<open>The current method returns \<open>r\<close>.\<close>

definition finish :: "ret \<Rightarrow> thread \<Rightarrow> thread" where
  "finish r t = t\<lparr>ops := tl (ops t), mid := False, rets := rets t @ [r]\<rparr>"

text \<open>
  A send has completed.  In \<^verbatim>\<open>Create\<close> and \<^verbatim>\<open>All\<close> the send comes first and a receive
  follows; in \<^verbatim>\<open>AssertCreate\<close> and \<^verbatim>\<open>AssertAll\<close> the send is the last statement.
\<close>

definition after_send :: "Call \<Rightarrow> thread \<Rightarrow> thread" where
  "after_send m t =
     (if mid t then finish RetUnit (t\<lparr>sent := sent t @ [m]\<rparr>)
      else t\<lparr>mid := True, sent := sent t @ [m]\<rparr>)"

text \<open>
  A receive has completed with \<open>r\<close>, in the method \<open>p\<close>: the code that follows the receive,
  up to the next channel operation or the return.
  \<^item> \<^verbatim>\<open>Create\<close>: \<^verbatim>\<open>return (<-c.Calls).(*createResp).err\<close>.
  \<^item> \<^verbatim>\<open>All\<close>: \<^verbatim>\<open>resp := (<-c.Calls).(*allResp); return resp.notes, resp.err\<close>.
  \<^item> \<^verbatim>\<open>AssertCreate\<close>: \<^verbatim>\<open>call := (<-c.Calls).(*createCall)\<close>, then
    \<^verbatim>\<open>if *call.note != *n { c.t.Error(...) }\<close>, which dereferences both pointers.
  \<^item> \<^verbatim>\<open>AssertAll\<close>: \<^verbatim>\<open>call := (<-c.Calls).(*allCall)\<close>, then
    \<^verbatim>\<open>if call == nil { c.t.Error("No all call") }\<close>; the pointer received was made by
    \<^verbatim>\<open>&allCall{}\<close>, so it is not nil.
  \<^item> \<^verbatim>\<open>AssertDone\<close>: \<^verbatim>\<open>if _, more := <-c.Calls; more { t.Fatal(...) }\<close>; \<^verbatim>\<open>t.Fatal\<close> ends
    the goroutine.
  \<^item> \<^verbatim>\<open>AddItem\<close> is \<^verbatim>\<open>Create\<close>, and \<^verbatim>\<open>Items\<close> is \<^verbatim>\<open>All\<close> followed by the body of
    \<^verbatim>\<open>Items\<close>.
  \<^verbatim>\<open>Close\<close> never receives.
\<close>

fun after_recv :: "op \<Rightarrow> Call option \<Rightarrow> thread \<Rightarrow> panic + (thread \<times> report list)" where
  "after_recv (Create n) r t =
     (case r of
        Some (createResp e) \<Rightarrow> Inr (finish (RetCreate e) t, [])
      | _ \<Rightarrow> Inl (InterfaceConversion (map_option type_of r) T_createResp))"
| "after_recv All_notes r t =
     (case r of
        Some (allResp ns e) \<Rightarrow> Inr (finish (RetAll ns e) t, [])
      | _ \<Rightarrow> Inl (InterfaceConversion (map_option type_of r) T_allResp))"
| "after_recv (AssertCreate n e) r t =
     (case r of
        Some (createCall a) \<Rightarrow>
          (case a of
             None \<Rightarrow> Inl NilDereference
           | Some av \<Rightarrow>
               (case n of
                  None \<Rightarrow> Inl NilDereference
                | Some nv \<Rightarrow>
                    Inr (t\<lparr>mid := True\<rparr>, if av \<noteq> nv then [ExpectedCreate nv av] else [])))
      | _ \<Rightarrow> Inl (InterfaceConversion (map_option type_of r) T_createCall))"
| "after_recv (AssertAll ns e) r t =
     (case r of
        Some allCall \<Rightarrow> Inr (t\<lparr>mid := True\<rparr>, [])
      | _ \<Rightarrow> Inl (InterfaceConversion (map_option type_of r) T_allCall))"
| "after_recv AssertDone r t =
     (case r of
        Some m \<Rightarrow> Inr (t\<lparr>exited := True\<rparr>, [NoMoreCalls])
      | None \<Rightarrow> Inr (finish RetUnit t, []))"
| "after_recv (AddItem item) r t =
     (case r of
        Some (createResp e) \<Rightarrow> Inr (finish (RetCreate e) t, [])
      | _ \<Rightarrow> Inl (InterfaceConversion (map_option type_of r) T_createResp))"
| "after_recv Items r t =
     (case r of
        Some (allResp ns e) \<Rightarrow>
          (case Items_result ns e of
             Inl p \<Rightarrow> Inl p
           | Inr (items, e') \<Rightarrow> Inr (finish (RetItems items e') t, []))
      | _ \<Rightarrow> Inl (InterfaceConversion (map_option type_of r) T_allResp))"
| "after_recv Close r t = Inr (t, [])"

definition received :: "Call option \<Rightarrow> thread \<Rightarrow> panic + (thread \<times> report list)" where
  "received r t = (case ops t of [] \<Rightarrow> Inr (t, []) | p # ps \<Rightarrow> after_recv p r t)"

text \<open>The history of a goroutine records every value it receives.\<close>

definition log_recv :: "Call option \<Rightarrow> thread \<Rightarrow> thread" where
  "log_recv r t = t\<lparr>recvd := recvd t @ [r]\<rparr>"

text \<open>
  The test: the goroutine that drives the system under test, the goroutine that verifies,
  whether \<^verbatim>\<open>c.Calls\<close> is closed, the reports made so far, and the panic that has stopped
  the program, if any.  Either goroutine may run any method: in \<^verbatim>\<open>TestGroceryList\<close> the
  driving goroutine also runs the final \<^verbatim>\<open>AssertDone\<close>.
\<close>

record config =
  driver :: thread
  verifier :: thread
  closed :: bool
  failures :: "report list"
  panicked :: "panic option"

datatype party = Driver | Verifier

fun other :: "party \<Rightarrow> party" where
  "other Driver = Verifier"
| "other Verifier = Driver"

fun thr :: "party \<Rightarrow> config \<Rightarrow> thread" where
  "thr Driver c = driver c"
| "thr Verifier c = verifier c"

fun set_thr :: "party \<Rightarrow> thread \<Rightarrow> config \<Rightarrow> config" where
  "set_thr Driver t c = c\<lparr>driver := t\<rparr>"
| "set_thr Verifier t c = c\<lparr>verifier := t\<rparr>"

text \<open>Goroutine \<open>p\<close> receives \<open>r\<close> and runs on to its next channel operation.\<close>

definition deliver :: "party \<Rightarrow> Call option \<Rightarrow> config \<Rightarrow> config" where
  "deliver p r c =
     (case received r (log_recv r (thr p c)) of
        Inl pn \<Rightarrow> (set_thr p (log_recv r (thr p c)) c)\<lparr>panicked := Some pn\<rparr>
      | Inr (t', reps) \<Rightarrow> (set_thr p t' c)\<lparr>failures := failures c @ reps\<rparr>)"

text \<open>
  \<^verbatim>\<open>make(chan Call)\<close> has no buffer: a send completes only together with a receive of
  the other goroutine, on the open channel.
\<close>

definition rendezvous :: "party \<Rightarrow> config \<Rightarrow> config list" where
  "rendezvous p c =
     (case next_action (thr p c) of
        Send m \<Rightarrow>
          (if next_action (thr (other p) c) = Recv \<and> \<not> closed c
           then [deliver (other p) (Some m) (set_thr p (after_send m (thr p c)) c)]
           else [])
      | _ \<Rightarrow> [])"

text \<open>
  What a goroutine can do without the other one: close the channel (a second close
  panics), and, once the channel is closed, receive the zero value or panic on a send.
\<close>

definition alone :: "party \<Rightarrow> config \<Rightarrow> config list" where
  "alone p c =
     (case next_action (thr p c) of
        CloseChan \<Rightarrow>
          (if closed c then [c\<lparr>panicked := Some CloseOfClosedChannel\<rparr>]
           else [(set_thr p (finish RetUnit (thr p c)) c)\<lparr>closed := True\<rparr>])
      | Send m \<Rightarrow> (if closed c then [c\<lparr>panicked := Some SendOnClosedChannel\<rparr>] else [])
      | Recv \<Rightarrow> (if closed c then [deliver p None c] else [])
      | Idle \<Rightarrow> [])"

text \<open>Every configuration the program can be in after one more step; a panic stops it.\<close>

definition successors :: "config \<Rightarrow> config list" where
  "successors c =
     (if panicked c \<noteq> None then []
      else rendezvous Driver c @ rendezvous Verifier c @ alone Driver c @ alone Verifier c)"

text \<open>\<open>forced c c'\<close>: from \<open>c\<close> the program has no choice and cannot stop before \<open>c'\<close>.\<close>

inductive forced :: "config \<Rightarrow> config \<Rightarrow> bool" where
  forced_refl: "forced c c"
| forced_step: "successors c = [c'] \<Longrightarrow> forced c' c'' \<Longrightarrow> forced c c''"

text \<open>\<open>reachable c c'\<close>: some execution leads from \<open>c\<close> to \<open>c'\<close>.\<close>

inductive reachable :: "config \<Rightarrow> config \<Rightarrow> bool" where
  reachable_refl: "reachable c c"
| reachable_step: "reachable c c' \<Longrightarrow> c'' \<in> set (successors c') \<Longrightarrow> reachable c c''"

text \<open>
  \<^verbatim>\<open>NewFakeClient\<close> makes the channel, open and unbuffered; a test then runs one list of
  methods in each goroutine.
\<close>

definition new_thread :: "op list \<Rightarrow> thread" where
  "new_thread ps = \<lparr>ops = ps, mid = False, rets = [], exited = False, sent = [], recvd = []\<rparr>"

definition NewFakeClient :: "op list \<Rightarrow> op list \<Rightarrow> config" where
  "NewFakeClient ds vs =
     \<lparr>driver = new_thread ds, verifier = new_thread vs, closed = False, failures = [],
      panicked = None\<rparr>"

text \<open>The test passes only when nothing was reported and the program has not panicked.\<close>

definition test_failed :: "config \<Rightarrow> bool" where
  "test_failed c = (\<not> (failures c = [] \<and> panicked c = None))"

section \<open>Executions\<close>

text \<open>
  The channel is open, nothing has panicked, and both goroutines are running and stand
  between two methods.
\<close>

definition at_rest :: "config \<Rightarrow> bool" where
  "at_rest c =
     (panicked c = None \<and> \<not> closed c \<and> \<not> exited (driver c) \<and> \<not> exited (verifier c)
      \<and> \<not> mid (driver c) \<and> \<not> mid (verifier c))"

text \<open>Follow the program for at most \<open>n\<close> steps, as long as it has exactly one next step.\<close>

fun run :: "nat \<Rightarrow> config \<Rightarrow> config" where
  "run 0 c = c"
| "run (Suc n) c = (case successors c of [c'] \<Rightarrow> run n c' | _ \<Rightarrow> c)"

text \<open>
  The vocabulary of the properties.  An assertion \<open>answers\<close> a call of the double when it
  is the assertion for that method and the notes of both are there (an item of the
  specification is a value: a nil \<^verbatim>\<open>*Note\<close> is no item, and \<^verbatim>\<open>AssertCreate\<close> dereferences
  both pointers).  \<open>response\<close> is what the assertion was told to hand back, and \<open>mismatch\<close>
  the report \<^verbatim>\<open>AssertCreate\<close> makes when the two notes differ.
\<close>

fun answers :: "op \<Rightarrow> op \<Rightarrow> bool" where
  "answers (AssertCreate (Some x) e) (Create (Some a)) = True"
| "answers (AssertAll ns e) All_notes = True"
| "answers a p = False"

fun response :: "op \<Rightarrow> ret" where
  "response (AssertCreate x e) = RetCreate e"
| "response (AssertAll ns e) = RetAll ns e"
| "response a = RetUnit"

fun mismatch :: "op \<Rightarrow> op \<Rightarrow> report list" where
  "mismatch (AssertCreate (Some x) e) (Create (Some a)) =
     (if a \<noteq> x then [ExpectedCreate x a] else [])"
| "mismatch a p = []"

text \<open>
  \<open>pairs_with s r\<close>: the receives \<open>r\<close> of one goroutine got, one by one and in order, the
  values \<open>s\<close> the other goroutine sent, and after them only the zero value of the closed
  channel.  \<open>paired p c\<close>: so it is for what \<open>p\<close> has sent, and on the open channel the
  other goroutine has received nothing else.
\<close>

fun pairs_with :: "Call list \<Rightarrow> Call option list \<Rightarrow> bool" where
  "pairs_with [] rs = list_all (\<lambda>r. r = None) rs"
| "pairs_with (m # ms) [] = False"
| "pairs_with (m # ms) (r # rs) = (r = Some m \<and> pairs_with ms rs)"

definition paired :: "party \<Rightarrow> config \<Rightarrow> bool" where
  "paired p c =
     (pairs_with (sent (thr p c)) (recvd (thr (other p) c))
      \<and> (closed c \<or> length (recvd (thr (other p) c)) = length (sent (thr p c))))"

text \<open>
  The type each method asserts of the value it receives: \<^verbatim>\<open>.(*createResp)\<close> in \<^verbatim>\<open>Create\<close>,
  \<^verbatim>\<open>.(*allResp)\<close> in \<^verbatim>\<open>All\<close>, \<^verbatim>\<open>.(*createCall)\<close> in \<^verbatim>\<open>AssertCreate\<close>, \<^verbatim>\<open>.(*allCall)\<close> in
  \<^verbatim>\<open>AssertAll\<close>; \<^verbatim>\<open>AssertDone\<close> asserts none and \<^verbatim>\<open>Close\<close> receives nothing.  An assertion
  and a call are \<open>crossed\<close> when the verifier asserts the other method than the one the
  driver calls.
\<close>

fun expects :: "op \<Rightarrow> dyn_type option" where
  "expects (Create n) = Some T_createResp"
| "expects All_notes = Some T_allResp"
| "expects (AssertCreate n e) = Some T_createCall"
| "expects (AssertAll ns e) = Some T_allCall"
| "expects (AddItem item) = Some T_createResp"
| "expects Items = Some T_allResp"
| "expects AssertDone = None"
| "expects Close = None"

fun crossed :: "op \<Rightarrow> op \<Rightarrow> bool" where
  "crossed (AssertAll ns e) (Create n) = True"
| "crossed (AssertCreate x e) All_notes = True"
| "crossed a p = False"

text \<open>
  \<^verbatim>\<open>TestGroceryList\<close>: the goroutine started with \<^verbatim>\<open>go func()\<close> runs
  \<^verbatim>\<open>AssertCreate(&Note{"apples"}, nil)\<close>, \<^verbatim>\<open>AssertAll([]*Note{{"apples"}}, nil)\<close> and
  \<^verbatim>\<open>Close()\<close>; the test's own goroutine runs \<^verbatim>\<open>list.AddItem("apples")\<close>,
  \<^verbatim>\<open>list.Items()\<close> and \<^verbatim>\<open>client.AssertDone(t)\<close>.
\<close>

definition TestGroceryList :: config where
  "TestGroceryList =
     NewFakeClient [AddItem ''apples'', Items, AssertDone]
       [AssertCreate (Some \<lparr>Text = ''apples''\<rparr>) None,
        AssertAll (Some [Some \<lparr>Text = ''apples''\<rparr>]) None, Close]"

section \<open>Basic facts\<close>

lemmas sem = successors_def rendezvous_def alone_def deliver_def
  received_def log_recv_def next_action_def after_send_def finish_def

lemma forced_trans: "forced a b \<Longrightarrow> forced b c \<Longrightarrow> forced a c"
  by (induction rule: forced.induct) (auto intro: forced.intros)

lemma forced2: "successors a = [b] \<Longrightarrow> successors b = [c] \<Longrightarrow> forced a c"
  by (blast intro: forced.intros)

lemma forced_run: "forced c (run n c)"
proof (induction n arbitrary: c)
  case 0
  show ?case by (simp add: forced_refl)
next
  case (Suc n)
  show ?case
  proof (cases "\<exists>c'. successors c = [c']")
    case True
    then obtain c' where s: "successors c = [c']" by blast
    then have "run (Suc n) c = run n c'" by simp
    with s Suc [of c'] show ?thesis by (simp add: forced_step)
  next
    case False
    then have "run (Suc n) c = c"
      by (cases "successors c") (auto split: list.splits)
    then show ?thesis by (simp add: forced_refl)
  qed
qed

text \<open>Every execution from \<open>c\<close> runs along the forced path.\<close>

lemma forced_reachable:
  assumes "forced c c'" and "reachable c d"
  shows "forced d c' \<or> reachable c' d"
  using assms(2,1)
proof (induction rule: reachable.induct)
  case (reachable_refl c)
  then show ?case by simp
next
  case (reachable_step c d e)
  from reachable_step.IH [OF reachable_step.prems]
  show ?case
  proof
    assume "forced d c'"
    then show ?thesis
    proof (cases rule: forced.cases)
      case forced_refl
      with reachable_step.hyps(2) have "reachable c' e"
        by (auto intro: reachable.intros)
      then show ?thesis by simp
    next
      case (forced_step d')
      with reachable_step.hyps(2) have "e = d'" by simp
      with forced_step show ?thesis by simp
    qed
  next
    assume "reachable c' d"
    with reachable_step.hyps(2) have "reachable c' e"
      by (auto intro: reachable.intros)
    then show ?thesis by simp
  qed
qed

lemma Create_round:
  assumes "at_rest c"
    and "ops (driver c) = Create (Some a) # ds"
    and "ops (verifier c) = AssertCreate (Some x) e # vs"
  shows "\<exists>c'. forced c c' \<and> at_rest c' \<and> ops (driver c') = ds \<and> ops (verifier c') = vs
     \<and> rets (driver c') = rets (driver c) @ [RetCreate e]
     \<and> rets (verifier c') = rets (verifier c) @ [RetUnit]
     \<and> failures c' = failures c @ (if a \<noteq> x then [ExpectedCreate x a] else [])"
proof -
  define c1 where "c1 = c\<lparr>driver := (driver c)\<lparr>mid := True, sent := sent (driver c) @ [createCall (Some a)]\<rparr>,
      verifier := (verifier c)\<lparr>recvd := recvd (verifier c) @ [Some (createCall (Some a))], mid := True\<rparr>,
      failures := failures c @ (if a \<noteq> x then [ExpectedCreate x a] else [])\<rparr>"
  define c2 where "c2 = c1\<lparr>driver := (driver c1)\<lparr>recvd := recvd (driver c) @ [Some (createResp e)],
        ops := ds, mid := False, rets := rets (driver c) @ [RetCreate e]\<rparr>,
      verifier := (verifier c1)\<lparr>sent := sent (verifier c) @ [createResp e],
        ops := vs, mid := False, rets := rets (verifier c) @ [RetUnit]\<rparr>\<rparr>"
  have s1: "successors c = [c1]"
    using assms by (simp add: sem at_rest_def c1_def)
  have s2: "successors c1 = [c2]"
    using assms by (simp add: sem at_rest_def c1_def c2_def)
  have p: "at_rest c2 \<and> ops (driver c2) = ds \<and> ops (verifier c2) = vs
     \<and> rets (driver c2) = rets (driver c) @ [RetCreate e]
     \<and> rets (verifier c2) = rets (verifier c) @ [RetUnit]
     \<and> failures c2 = failures c @ (if a \<noteq> x then [ExpectedCreate x a] else [])"
    using assms by (simp add: at_rest_def c1_def c2_def)
  from s1 s2 have "forced c c2" by (rule forced2)
  with p show ?thesis by blast
qed

lemma All_round:
  assumes "at_rest c"
    and "ops (driver c) = All_notes # ds"
    and "ops (verifier c) = AssertAll ns e # vs"
  shows "\<exists>c'. forced c c' \<and> at_rest c' \<and> ops (driver c') = ds \<and> ops (verifier c') = vs
     \<and> rets (driver c') = rets (driver c) @ [RetAll ns e]
     \<and> rets (verifier c') = rets (verifier c) @ [RetUnit]
     \<and> failures c' = failures c"
proof -
  define c1 where "c1 = c\<lparr>driver := (driver c)\<lparr>mid := True, sent := sent (driver c) @ [allCall]\<rparr>,
      verifier := (verifier c)\<lparr>recvd := recvd (verifier c) @ [Some allCall], mid := True\<rparr>,
      failures := failures c\<rparr>"
  define c2 where "c2 = c1\<lparr>driver := (driver c1)\<lparr>recvd := recvd (driver c) @ [Some (allResp ns e)],
        ops := ds, mid := False, rets := rets (driver c) @ [RetAll ns e]\<rparr>,
      verifier := (verifier c1)\<lparr>sent := sent (verifier c) @ [allResp ns e],
        ops := vs, mid := False, rets := rets (verifier c) @ [RetUnit]\<rparr>\<rparr>"
  have s1: "successors c = [c1]"
    using assms by (simp add: sem at_rest_def c1_def)
  have s2: "successors c1 = [c2]"
    using assms by (simp add: sem at_rest_def c1_def c2_def)
  have p: "at_rest c2 \<and> ops (driver c2) = ds \<and> ops (verifier c2) = vs
     \<and> rets (driver c2) = rets (driver c) @ [RetAll ns e]
     \<and> rets (verifier c2) = rets (verifier c) @ [RetUnit]
     \<and> failures c2 = failures c"
    using assms by (simp add: at_rest_def c1_def c2_def)
  from s1 s2 have "forced c c2" by (rule forced2)
  with p show ?thesis by blast
qed

lemma answers_round:
  assumes "at_rest c" and "answers a p"
    and "ops (driver c) = p # ds"
    and "ops (verifier c) = a # vs"
  shows "\<exists>c'. forced c c' \<and> at_rest c' \<and> ops (driver c') = ds \<and> ops (verifier c') = vs
     \<and> rets (driver c') = rets (driver c) @ [response a]
     \<and> rets (verifier c') = rets (verifier c) @ [RetUnit]
     \<and> failures c' = failures c @ mismatch a p"
  using assms(2,1,3,4)
proof (induction a p rule: answers.induct)
  case (1 x e a)
  from Create_round [OF "1.prems"(2,3,4)] show ?case by simp
next
  case (2 ns e)
  from All_round [OF "2.prems"(2,3,4)] show ?case by simp
qed simp_all

lemma matched_rounds:
  assumes "list_all2 answers asserts calls" and "at_rest c"
    and "ops (driver c) = calls @ ds"
    and "ops (verifier c) = asserts @ vs"
  shows "\<exists>c'. forced c c' \<and> at_rest c' \<and> ops (driver c') = ds \<and> ops (verifier c') = vs
     \<and> rets (driver c') = rets (driver c) @ map response asserts
     \<and> rets (verifier c') = rets (verifier c) @ replicate (length asserts) RetUnit
     \<and> failures c' = failures c @ concat (map2 mismatch asserts calls)"
  using assms
proof (induction asserts calls arbitrary: c rule: list_all2_induct)
  case Nil
  then show ?case by (auto intro: forced_refl)
next
  case (Cons a asserts p calls)
  from Cons.prems have o: "ops (driver c) = p # (calls @ ds)" "ops (verifier c) = a # (asserts @ vs)"
    by simp_all
  from answers_round [OF Cons.prems(1) Cons.hyps(1) o]
  obtain c1 where c1: "forced c c1" "at_rest c1" "ops (driver c1) = calls @ ds"
      "ops (verifier c1) = asserts @ vs"
      "rets (driver c1) = rets (driver c) @ [response a]"
      "rets (verifier c1) = rets (verifier c) @ [RetUnit]"
      "failures c1 = failures c @ mismatch a p"
    by auto
  from Cons.IH [OF c1(2,3,4)]
  obtain c2 where c2: "forced c1 c2" "at_rest c2" "ops (driver c2) = ds"
      "ops (verifier c2) = vs"
      "rets (driver c2) = rets (driver c1) @ map response asserts"
      "rets (verifier c2) = rets (verifier c1) @ replicate (length asserts) RetUnit"
      "failures c2 = failures c1 @ concat (map2 mismatch asserts calls)"
    by auto
  from c1(1) c2(1) have "forced c c2" by (rule forced_trans)
  with c1 c2 show ?case by (intro exI [of _ c2]) simp
qed

lemma thr_set_thr [simp]: "thr p (set_thr p t c) = t"
  by (cases p) simp_all

lemma thr_set_thr_other [simp]: "thr (other p) (set_thr p t c) = thr (other p) c"
  by (cases p) simp_all

lemma thr_other_set_thr [simp]: "thr p (set_thr (other p) t c) = thr p c"
  by (cases p) simp_all

lemma set_thr_fields [simp]:
  "closed (set_thr p t c) = closed c"
  "failures (set_thr p t c) = failures c"
  "panicked (set_thr p t c) = panicked c"
  by (cases p; simp)+

lemma thr_upd [simp]:
  "thr p (c\<lparr>panicked := x\<rparr>) = thr p c"
  "thr p (c\<lparr>failures := y\<rparr>) = thr p c"
  "thr p (c\<lparr>closed := z\<rparr>) = thr p c"
  by (cases p; simp)+

lemma other_other [simp]: "other (other p) = p"
  by (cases p) simp_all

lemma other_neq [simp]: "other p \<noteq> p" "p \<noteq> other p"
  by (cases p; simp)+

text \<open>after_recv keeps the history\<close>

lemma after_recv_logs:
  assumes "after_recv p r t = Inr (t', reps)"
  shows "sent t' = sent t \<and> recvd t' = recvd t"
  using assms
  by (cases p) (auto simp: finish_def split: option.splits Call.splits sum.splits if_splits)

lemma received_logs:
  assumes "received r t = Inr (t', reps)"
  shows "sent t' = sent t \<and> recvd t' = recvd t"
  using assms after_recv_logs
  by (auto simp: received_def split: list.splits)

lemma deliver_thr:
  "sent (thr p (deliver p r c)) = sent (thr p c)"
  "recvd (thr p (deliver p r c)) = recvd (thr p c) @ [r]"
  "thr (other p) (deliver p r c) = thr (other p) c"
  "closed (deliver p r c) = closed c"
  using received_logs [of r "log_recv r (thr p c)"]
  by (auto simp: deliver_def log_recv_def split: sum.splits)

lemma after_send_logs:
  "sent (after_send m t) = sent t @ [m]" "recvd (after_send m t) = recvd t"
  by (simp_all add: after_send_def finish_def)

text \<open>The kinds of step\<close>

lemma successors_cases:
  assumes "c' \<in> set (successors c)"
  obtains
    (rendezvous) p m where "panicked c = None" "\<not> closed c" "next_action (thr p c) = Send m"
      "next_action (thr (other p) c) = Recv"
      "c' = deliver (other p) (Some m) (set_thr p (after_send m (thr p c)) c)"
  | (close) p where "panicked c = None" "\<not> closed c" "next_action (thr p c) = CloseChan"
      "c' = (set_thr p (finish RetUnit (thr p c)) c)\<lparr>closed := True\<rparr>"
  | (close_closed) p where "panicked c = None" "closed c" "next_action (thr p c) = CloseChan"
      "c' = c\<lparr>panicked := Some CloseOfClosedChannel\<rparr>"
  | (send_closed) p m where "panicked c = None" "closed c" "next_action (thr p c) = Send m"
      "c' = c\<lparr>panicked := Some SendOnClosedChannel\<rparr>"
  | (recv_closed) p where "panicked c = None" "closed c" "next_action (thr p c) = Recv"
      "c' = deliver p None c"
proof -
  from assms have np: "panicked c = None"
    by (auto simp: successors_def split: if_splits)
  with assms have "c' \<in> set (rendezvous Driver c) \<or> c' \<in> set (rendezvous Verifier c)
      \<or> c' \<in> set (alone Driver c) \<or> c' \<in> set (alone Verifier c)"
    by (auto simp: successors_def)
  then have "\<exists>p. c' \<in> set (rendezvous p c) \<or> c' \<in> set (alone p c)"
    by blast
  then obtain p where "c' \<in> set (rendezvous p c) \<or> c' \<in> set (alone p c)" ..
  then show thesis
  proof (cases "next_action (thr p c)")
    case (Send m)
    assume "c' \<in> set (rendezvous p c) \<or> c' \<in> set (alone p c)"
    with Send have "(\<not> closed c \<and> next_action (thr (other p) c) = Recv
          \<and> c' = deliver (other p) (Some m) (set_thr p (after_send m (thr p c)) c))
        \<or> (closed c \<and> c' = c\<lparr>panicked := Some SendOnClosedChannel\<rparr>)"
      by (auto simp: rendezvous_def alone_def split: if_splits)
    with np Send show thesis
      using rendezvous [of p m] send_closed [of p m] by blast
  next
    case Recv
    assume "c' \<in> set (rendezvous p c) \<or> c' \<in> set (alone p c)"
    with Recv have "closed c \<and> c' = deliver p None c"
      by (auto simp: rendezvous_def alone_def split: if_splits)
    with np Recv show thesis
      using recv_closed [of p] by blast
  next
    case CloseChan
    assume "c' \<in> set (rendezvous p c) \<or> c' \<in> set (alone p c)"
    with CloseChan have "(closed c \<and> c' = c\<lparr>panicked := Some CloseOfClosedChannel\<rparr>)
        \<or> (\<not> closed c \<and> c' = (set_thr p (finish RetUnit (thr p c)) c)\<lparr>closed := True\<rparr>)"
      by (auto simp: rendezvous_def alone_def split: if_splits)
    with np CloseChan show thesis
      using close [of p] close_closed [of p] by blast
  next
    case Idle
    assume "c' \<in> set (rendezvous p c) \<or> c' \<in> set (alone p c)"
    with Idle show thesis
      by (auto simp: rendezvous_def alone_def)
  qed
qed

lemma pairs_with_snoc:
  "pairs_with s r \<Longrightarrow> length r = length s \<Longrightarrow> pairs_with (s @ [m]) (r @ [Some m])"
  by (induction s r rule: pairs_with.induct) auto

lemma pairs_with_closed: "pairs_with s r \<Longrightarrow> pairs_with s (r @ [None])"
  by (induction s r rule: pairs_with.induct) auto

lemma pairs_with_nth: "pairs_with s r \<Longrightarrow> i < length s \<Longrightarrow> r ! i = Some (s ! i)"
proof (induction s r arbitrary: i rule: pairs_with.induct)
  case (3 m ms r rs)
  then show ?case by (cases i) auto
qed auto

lemma pairs_with_length: "pairs_with s r \<Longrightarrow> length s \<le> length r"
  by (induction s r rule: pairs_with.induct) auto

lemma pairs_with_rest: "pairs_with s r \<Longrightarrow> length s \<le> i \<Longrightarrow> i < length r \<Longrightarrow> r ! i = None"
proof (induction s r arbitrary: i rule: pairs_with.induct)
  case (1 rs)
  then show ?case by (simp add: list_all_length)
next
  case (3 m ms r rs)
  then show ?case by (cases i) auto
qed auto

lemma party_cases: "q = p \<or> q = other p"
  by (cases p; cases q) simp_all

lemma paired_init: "paired p (NewFakeClient ds vs)"
  by (cases p) (simp_all add: paired_def NewFakeClient_def new_thread_def)

lemma paired_step:
  assumes "c' \<in> set (successors c)" and "paired q c"
  shows "paired q c'"
  using assms(1)
proof (cases rule: successors_cases)
  case (rendezvous p m)
  let ?c1 = "set_thr p (after_send m (thr p c)) c"
  have a: "thr p c' = after_send m (thr p c)"
    using deliver_thr(3) [of "other p" "Some m" ?c1] rendezvous(5) by simp
  have b: "sent (thr (other p) c') = sent (thr (other p) c)"
    "recvd (thr (other p) c') = recvd (thr (other p) c) @ [Some m]"
    using deliver_thr(1,2) [of "other p" "Some m" ?c1] rendezvous(5) by simp_all
  have cl: "closed c' = closed c"
    using deliver_thr(4) [of "other p" "Some m" ?c1] rendezvous(5) by simp
  from party_cases [of q p] show ?thesis
  proof
    assume "q = p"
    with assms(2) rendezvous(2) a b cl show ?thesis
      by (simp add: paired_def after_send_logs pairs_with_snoc)
  next
    assume "q = other p"
    with assms(2) rendezvous(2) a b cl show ?thesis
      by (simp add: paired_def after_send_logs)
  qed
next
  case (close p)
  have "sent (thr q c') = sent (thr q c) \<and> recvd (thr (other q) c') = recvd (thr (other q) c)"
    using close(4) party_cases [of q p] by (auto simp: finish_def)
  with assms(2) close(4) show ?thesis
    by (simp add: paired_def)
next
  case (close_closed p)
  with assms(2) show ?thesis by (simp add: paired_def)
next
  case (send_closed p m)
  with assms(2) show ?thesis by (simp add: paired_def)
next
  case (recv_closed p)
  have b: "sent (thr p c') = sent (thr p c)" "recvd (thr p c') = recvd (thr p c) @ [None]"
    "thr (other p) c' = thr (other p) c" "closed c' = closed c"
    using deliver_thr [of p None c] recv_closed(4) by simp_all
  from party_cases [of q p] show ?thesis
  proof
    assume "q = p"
    with assms(2) recv_closed(2) b show ?thesis
      by (simp add: paired_def)
  next
    assume "q = other p"
    with assms(2) recv_closed(2) b show ?thesis
      by (simp add: paired_def pairs_with_closed)
  qed
qed

lemma paired_reachable:
  assumes "reachable c c'" and "paired q c"
  shows "paired q c'"
  using assms by (induction rule: reachable.induct) (auto intro: paired_step)

lemma reachable_trans: "reachable b d \<Longrightarrow> reachable a b \<Longrightarrow> reachable a d"
  by (induction rule: reachable.induct) (auto intro: reachable.intros)

lemma forced_imp_reachable: "forced c c' \<Longrightarrow> reachable c c'"
proof (induction rule: forced.induct)
  case (forced_refl c)
  show ?case by (rule reachable_refl)
next
  case (forced_step c c' c'')
  have "reachable c c'"
    using forced_step.hyps(1) reachable_step [OF reachable_refl, of c' c] by simp
  with forced_step.IH show ?case by (rule reachable_trans)
qed

lemma fill_items_map:
  "i \<le> length ns \<Longrightarrow> length items = length ns \<Longrightarrow>
   fill_items i (map Some ns) items = Inr (take i items @ map Text (drop i ns))"
proof (induction "length ns - i" arbitrary: i items)
  case 0
  then show ?case by (simp add: fill_items.simps)
next
  case (Suc k)
  then have lt: "i < length ns" by simp
  have "fill_items i (map Some ns) items = fill_items (Suc i) (map Some ns) (items[i := Text (ns ! i)])"
    using lt by (subst fill_items.simps) simp
  also have "\<dots> = Inr (take (Suc i) (items[i := Text (ns ! i)]) @ map Text (drop (Suc i) ns))"
    using Suc.hyps(1) [of "Suc i" "items[i := Text (ns ! i)]"] Suc.hyps(2) Suc.prems lt by simp
  also have "take (Suc i) (items[i := Text (ns ! i)]) = take i items @ [Text (ns ! i)]"
    using lt Suc.prems by (simp add: take_Suc_conv_app_nth)
  also have "(take i items @ [Text (ns ! i)]) @ map Text (drop (Suc i) ns)
      = take i items @ map Text (drop i ns)"
    using lt by (simp add: Cons_nth_drop_Suc [symmetric])
  finally show ?case .
qed

lemma Items_result_notes:
  "Items_result (Some (map Some ns)) None = Inr (Some (map Text ns), None)"
  by (simp add: Items_result_def slice_list_def fill_items_map)

lemma Items_round:
  assumes "at_rest c"
    and "ops (driver c) = Items # ds"
    and "ops (verifier c) = AssertAll ns e # vs"
    and "Items_result ns e = Inr (items, e')"
  shows "\<exists>c'. forced c c' \<and> at_rest c' \<and> ops (driver c') = ds \<and> ops (verifier c') = vs
     \<and> rets (driver c') = rets (driver c) @ [RetItems items e']
     \<and> rets (verifier c') = rets (verifier c) @ [RetUnit]
     \<and> failures c' = failures c"
proof -
  define c1 where "c1 = c\<lparr>driver := (driver c)\<lparr>mid := True, sent := sent (driver c) @ [allCall]\<rparr>,
      verifier := (verifier c)\<lparr>recvd := recvd (verifier c) @ [Some allCall], mid := True\<rparr>,
      failures := failures c\<rparr>"
  define c2 where "c2 = c1\<lparr>driver := (driver c1)\<lparr>recvd := recvd (driver c) @ [Some (allResp ns e)],
        ops := ds, mid := False, rets := rets (driver c) @ [RetItems items e']\<rparr>,
      verifier := (verifier c1)\<lparr>sent := sent (verifier c) @ [allResp ns e],
        ops := vs, mid := False, rets := rets (verifier c) @ [RetUnit]\<rparr>\<rparr>"
  have s1: "successors c = [c1]"
    using assms(1,2,3) by (simp add: sem at_rest_def c1_def)
  have s2: "successors c1 = [c2]"
    using assms by (simp add: sem at_rest_def c1_def c2_def)
  have p: "at_rest c2 \<and> ops (driver c2) = ds \<and> ops (verifier c2) = vs
     \<and> rets (driver c2) = rets (driver c) @ [RetItems items e']
     \<and> rets (verifier c2) = rets (verifier c) @ [RetUnit]
     \<and> failures c2 = failures c"
    using assms(1,2,3) by (simp add: at_rest_def c1_def c2_def)
  from s1 s2 have "forced c c2" by (rule forced2)
  with p show ?thesis by blast
qed

lemma send_completes:
  assumes "c' \<in> set (successors c)" and "next_action (thr p c) = Send m"
    and "thr p c' \<noteq> thr p c"
  shows "\<not> closed c \<and> next_action (thr (other p) c) = Recv
     \<and> c' = deliver (other p) (Some m) (set_thr p (after_send m (thr p c)) c)
     \<and> thr p c' = after_send m (thr p c)
     \<and> recvd (thr (other p) c') = recvd (thr (other p) c) @ [Some m]"
  using assms(1)
proof (cases rule: successors_cases)
  case (rendezvous q m')
  from party_cases [of q p] show ?thesis
  proof
    assume "q = p"
    with rendezvous assms(2) have m: "m' = m" by simp
    let ?c1 = "set_thr p (after_send m (thr p c)) c"
    have "thr p c' = after_send m (thr p c)"
      using deliver_thr(3) [of "other p" "Some m" ?c1] rendezvous(5) m \<open>q = p\<close> by simp
    moreover have "recvd (thr (other p) c') = recvd (thr (other p) c) @ [Some m]"
      using deliver_thr(2) [of "other p" "Some m" ?c1] rendezvous(5) m \<open>q = p\<close> by simp
    ultimately show ?thesis using rendezvous m \<open>q = p\<close> by simp
  next
    assume "q = other p"
    with rendezvous(4) assms(2) show ?thesis by simp
  qed
next
  case (close q)
  with assms(2) have "q = other p" using party_cases [of q p] by auto
  with close(4) assms(3) show ?thesis by simp
next
  case (close_closed q)
  with assms(3) show ?thesis by simp
next
  case (send_closed q m')
  with assms(3) show ?thesis by simp
next
  case (recv_closed q)
  with assms(2) have "q = other p" using party_cases [of q p] by auto
  with recv_closed(4) assms(3) deliver_thr(3) [of "other p" None c] show ?thesis by simp
qed

lemma recv_completes:
  assumes "c' \<in> set (successors c)" and "next_action (thr p c) = Recv"
    and "thr p c' \<noteq> thr p c"
  shows "(\<not> closed c \<and> (\<exists>m. next_action (thr (other p) c) = Send m
            \<and> c' = deliver p (Some m) (set_thr (other p) (after_send m (thr (other p) c)) c)))
     \<or> (closed c \<and> c' = deliver p None c)"
  using assms(1)
proof (cases rule: successors_cases)
  case (rendezvous q m')
  from party_cases [of q p] show ?thesis
  proof
    assume "q = p"
    with rendezvous assms(2) show ?thesis by simp
  next
    assume "q = other p"
    with rendezvous show ?thesis by simp
  qed
next
  case (close q)
  with assms(2) have "q = other p" using party_cases [of q p] by auto
  with close(4) assms(3) show ?thesis by simp
next
  case (close_closed q)
  with assms(3) show ?thesis by simp
next
  case (send_closed q m')
  with assms(3) show ?thesis by simp
next
  case (recv_closed q)
  from party_cases [of q p] show ?thesis
  proof
    assume "q = p"
    with recv_closed show ?thesis by simp
  next
    assume "q = other p"
    with recv_closed(4) assms(3) deliver_thr(3) [of "other p" None c] show ?thesis by simp
  qed
qed

lemma Send_createResp:
  assumes "next_action t = Send (createResp e)"
  shows "\<exists>x vs. ops t = AssertCreate x e # vs \<and> mid t \<and> \<not> exited t"
proof -
  from assms have ne: "\<not> exited t"
    by (auto simp: next_action_def split: if_splits)
  with assms obtain p ps where o: "ops t = p # ps" and a: "op_action p (mid t) = Send (createResp e)"
    by (auto simp: next_action_def split: list.splits)
  from a have "(\<exists>x. p = AssertCreate x e) \<and> mid t"
    by (cases p) (auto split: if_splits)
  with o ne show ?thesis by auto
qed

lemma Send_allResp:
  assumes "next_action t = Send (allResp ns e)"
  shows "\<exists>vs. ops t = AssertAll ns e # vs \<and> mid t \<and> \<not> exited t"
proof -
  from assms have ne: "\<not> exited t"
    by (auto simp: next_action_def split: if_splits)
  with assms obtain p ps where o: "ops t = p # ps" and a: "op_action p (mid t) = Send (allResp ns e)"
    by (auto simp: next_action_def split: list.splits)
  from a have "p = AssertAll ns e \<and> mid t"
    by (cases p) (auto split: if_splits)
  with o ne show ?thesis by blast
qed

lemma recv_source:
  assumes "c' \<in> set (successors c)" and "next_action (thr p c) = Recv"
    and "thr p c' \<noteq> thr p c"
  obtains r c1 where "c' = deliver p r c1" and "thr p c1 = thr p c"
    and "r = None \<and> closed c \<or>
         \<not> closed c \<and> (\<exists>m. r = Some m \<and> next_action (thr (other p) c) = Send m
            \<and> thr (other p) c' = after_send m (thr (other p) c))"
proof -
  from recv_completes [OF assms] show thesis
  proof
    assume a: "\<not> closed c \<and> (\<exists>m. next_action (thr (other p) c) = Send m
            \<and> c' = deliver p (Some m) (set_thr (other p) (after_send m (thr (other p) c)) c))"
    then obtain m where m: "next_action (thr (other p) c) = Send m"
      "c' = deliver p (Some m) (set_thr (other p) (after_send m (thr (other p) c)) c)"
      by blast
    let ?c1 = "set_thr (other p) (after_send m (thr (other p) c)) c"
    have "thr (other p) c' = after_send m (thr (other p) c)"
      using deliver_thr(3) [of p "Some m" ?c1] m(2) by simp
    with a m that [of "Some m" ?c1] show thesis by simp
  next
    assume "closed c \<and> c' = deliver p None c"
    with that [of None c] show thesis by simp
  qed
qed

lemma consumed_createCall:
  assumes "next_action t = Recv"
    and "received (Some (createCall n)) (log_recv (Some (createCall n)) t) = Inr (t', reps)"
    and "\<not> exited t'"
  shows "\<exists>x e vs. ops t = AssertCreate x e # vs \<and> \<not> mid t \<and> mid t'"
proof -
  from assms(1) obtain p ps where o: "ops t = p # ps" and a: "op_action p (mid t) = Recv"
    by (auto simp: next_action_def split: if_splits list.splits)
  from a assms(2,3) o show ?thesis
    by (cases p) (auto simp: received_def log_recv_def split: if_splits option.splits)
qed

lemma consumed_allCall:
  assumes "next_action t = Recv"
    and "received (Some allCall) (log_recv (Some allCall) t) = Inr (t', reps)"
    and "\<not> exited t'"
  shows "\<exists>ns e vs. ops t = AssertAll ns e # vs \<and> \<not> mid t \<and> mid t'"
proof -
  from assms(1) obtain p ps where o: "ops t = p # ps" and a: "op_action p (mid t) = Recv"
    by (auto simp: next_action_def split: if_splits list.splits)
  from a assms(2,3) o show ?thesis
    by (cases p) (auto simp: received_def log_recv_def split: if_splits option.splits)
qed

lemma deliver_ok:
  assumes "panicked (deliver p r c) = None" and "panicked c = None"
  shows "\<exists>t' reps. received r (log_recv r (thr p c)) = Inr (t', reps)
     \<and> thr p (deliver p r c) = t' \<and> failures (deliver p r c) = failures c @ reps"
  using assms by (auto simp: deliver_def split: sum.splits)

lemma call_consumed:
  assumes "c' \<in> set (successors c)" and "\<not> exited (driver c)" and "\<not> mid (driver c)"
    and "driver c' \<noteq> driver c"
  shows "(ops (driver c) = Create n # ds \<longrightarrow>
           \<not> closed c \<and> next_action (verifier c) = Recv
           \<and> driver c' = after_send (createCall n) (driver c)
           \<and> recvd (verifier c') = recvd (verifier c) @ [Some (createCall n)]
           \<and> (panicked c' = None \<and> \<not> exited (verifier c') \<longrightarrow>
                (\<exists>x e vs. ops (verifier c) = AssertCreate x e # vs \<and> \<not> mid (verifier c)
                   \<and> mid (verifier c'))))
       \<and> (ops (driver c) = All_notes # ds \<longrightarrow>
           \<not> closed c \<and> next_action (verifier c) = Recv
           \<and> driver c' = after_send allCall (driver c)
           \<and> recvd (verifier c') = recvd (verifier c) @ [Some allCall]
           \<and> (panicked c' = None \<and> \<not> exited (verifier c') \<longrightarrow>
                (\<exists>ns e vs. ops (verifier c) = AssertAll ns e # vs \<and> \<not> mid (verifier c)
                   \<and> mid (verifier c'))))"
proof (intro conjI impI)
  assume o: "ops (driver c) = Create n # ds"
  with assms have na: "next_action (thr Driver c) = Send (createCall n)"
    by (simp add: next_action_def)
  from assms(1) have np: "panicked c = None"
    by (auto simp: successors_def split: if_splits)
  note sc = send_completes [OF assms(1) na, simplified, OF assms(4)]
  from sc show "\<not> closed c" "next_action (verifier c) = Recv"
    "driver c' = after_send (createCall n) (driver c)"
    "recvd (verifier c') = recvd (verifier c) @ [Some (createCall n)]"
    by blast+
  assume ok: "panicked c' = None \<and> \<not> exited (verifier c')"
  let ?c1 = "c\<lparr>driver := after_send (createCall n) (driver c)\<rparr>"
  from sc have c': "c' = deliver Verifier (Some (createCall n)) ?c1" by blast
  from deliver_ok [of Verifier "Some (createCall n)" ?c1] ok c' np
  obtain t' reps where "received (Some (createCall n)) (log_recv (Some (createCall n)) (verifier c)) = Inr (t', reps)"
    "verifier c' = t'"
    by auto
  with consumed_createCall [of "verifier c" n t' reps] sc ok
  show "\<exists>x e vs. ops (verifier c) = AssertCreate x e # vs \<and> \<not> mid (verifier c) \<and> mid (verifier c')"
    by simp
next
  assume o: "ops (driver c) = All_notes # ds"
  with assms have na: "next_action (thr Driver c) = Send allCall"
    by (simp add: next_action_def)
  from assms(1) have np: "panicked c = None"
    by (auto simp: successors_def split: if_splits)
  note sc = send_completes [OF assms(1) na, simplified, OF assms(4)]
  from sc show "\<not> closed c" "next_action (verifier c) = Recv"
    "driver c' = after_send allCall (driver c)"
    "recvd (verifier c') = recvd (verifier c) @ [Some allCall]"
    by blast+
  assume ok: "panicked c' = None \<and> \<not> exited (verifier c')"
  let ?c1 = "c\<lparr>driver := after_send allCall (driver c)\<rparr>"
  from sc have c': "c' = deliver Verifier (Some allCall) ?c1" by blast
  from deliver_ok [of Verifier "Some allCall" ?c1] ok c' np
  obtain t' reps where "received (Some allCall) (log_recv (Some allCall) (verifier c)) = Inr (t', reps)"
    "verifier c' = t'"
    by auto
  with consumed_allCall [of "verifier c" t' reps] sc ok
  show "\<exists>ns e vs. ops (verifier c) = AssertAll ns e # vs \<and> \<not> mid (verifier c) \<and> mid (verifier c')"
    by simp
qed

lemma deliver_Create:
  assumes "ops (thr p c) = Create n # ds"
    and "rets (thr p (deliver p r c)) \<noteq> rets (thr p c)"
  shows "\<exists>e. r = Some (createResp e)
     \<and> thr p (deliver p r c) = finish (RetCreate e) (log_recv r (thr p c))"
  using assms
  by (auto simp: deliver_def received_def log_recv_def split: option.splits Call.splits)

lemma deliver_All:
  assumes "ops (thr p c) = All_notes # ds"
    and "rets (thr p (deliver p r c)) \<noteq> rets (thr p c)"
  shows "\<exists>ns e. r = Some (allResp ns e)
     \<and> thr p (deliver p r c) = finish (RetAll ns e) (log_recv r (thr p c))"
  using assms
  by (auto simp: deliver_def received_def log_recv_def split: option.splits Call.splits)

lemma response_sent:
  assumes "c' \<in> set (successors c)" and "\<not> exited (driver c)" and "mid (driver c)"
    and "rets (driver c') \<noteq> rets (driver c)"
  shows "(ops (driver c) = Create n # ds \<longrightarrow>
           \<not> closed c
           \<and> (\<exists>x e vs. ops (verifier c) = AssertCreate x e # vs \<and> mid (verifier c)
                \<and> sent (verifier c') = sent (verifier c) @ [createResp e]
                \<and> ops (verifier c') = vs \<and> \<not> mid (verifier c')
                \<and> rets (driver c') = rets (driver c) @ [RetCreate e]
                \<and> ops (driver c') = ds \<and> \<not> mid (driver c')))
       \<and> (ops (driver c) = All_notes # ds \<longrightarrow>
           \<not> closed c
           \<and> (\<exists>ns e vs. ops (verifier c) = AssertAll ns e # vs \<and> mid (verifier c)
                \<and> sent (verifier c') = sent (verifier c) @ [allResp ns e]
                \<and> ops (verifier c') = vs \<and> \<not> mid (verifier c')
                \<and> rets (driver c') = rets (driver c) @ [RetAll ns e]
                \<and> ops (driver c') = ds \<and> \<not> mid (driver c')))"
proof (intro conjI impI)
  assume o: "ops (driver c) = Create n # ds"
  with assms have na: "next_action (thr Driver c) = Recv"
    by (simp add: next_action_def)
  from assms(4) have ch: "thr Driver c' \<noteq> thr Driver c" by auto
  from recv_source [OF assms(1) na ch]
  obtain r c1 where c': "c' = deliver Driver r c1" and d1: "driver c1 = driver c"
    and r: "r = None \<and> closed c \<or> \<not> closed c \<and> (\<exists>m. r = Some m \<and> next_action (verifier c) = Send m
            \<and> verifier c' = after_send m (verifier c))"
    by auto
  from deliver_Create [of Driver c1 n ds r] o d1 c' assms(4)
  obtain e where e: "r = Some (createResp e)"
    "driver c' = finish (RetCreate e) (log_recv r (driver c))"
    by auto
  with r have nc: "\<not> closed c" and s: "next_action (verifier c) = Send (createResp e)"
    and v: "verifier c' = after_send (createResp e) (verifier c)"
    by auto
  from Send_createResp [OF s] obtain x vs where
    vo: "ops (verifier c) = AssertCreate x e # vs" "mid (verifier c)"
    by blast
  from nc show "\<not> closed c" .
  from vo v e o show "\<exists>x e vs. ops (verifier c) = AssertCreate x e # vs \<and> mid (verifier c)
                \<and> sent (verifier c') = sent (verifier c) @ [createResp e]
                \<and> ops (verifier c') = vs \<and> \<not> mid (verifier c')
                \<and> rets (driver c') = rets (driver c) @ [RetCreate e]
                \<and> ops (driver c') = ds \<and> \<not> mid (driver c')"
    by (simp add: after_send_def finish_def log_recv_def)
next
  assume o: "ops (driver c) = All_notes # ds"
  with assms have na: "next_action (thr Driver c) = Recv"
    by (simp add: next_action_def)
  from assms(4) have ch: "thr Driver c' \<noteq> thr Driver c" by auto
  from recv_source [OF assms(1) na ch]
  obtain r c1 where c': "c' = deliver Driver r c1" and d1: "driver c1 = driver c"
    and r: "r = None \<and> closed c \<or> \<not> closed c \<and> (\<exists>m. r = Some m \<and> next_action (verifier c) = Send m
            \<and> verifier c' = after_send m (verifier c))"
    by auto
  from deliver_All [of Driver c1 ds r] o d1 c' assms(4)
  obtain ns e where e: "r = Some (allResp ns e)"
    "driver c' = finish (RetAll ns e) (log_recv r (driver c))"
    by auto
  with r have nc: "\<not> closed c" and s: "next_action (verifier c) = Send (allResp ns e)"
    and v: "verifier c' = after_send (allResp ns e) (verifier c)"
    by auto
  from Send_allResp [OF s] obtain vs where
    vo: "ops (verifier c) = AssertAll ns e # vs" "mid (verifier c)"
    by blast
  from nc show "\<not> closed c" .
  from vo v e o show "\<exists>ns e vs. ops (verifier c) = AssertAll ns e # vs \<and> mid (verifier c)
                \<and> sent (verifier c') = sent (verifier c) @ [allResp ns e]
                \<and> ops (verifier c') = vs \<and> \<not> mid (verifier c')
                \<and> rets (driver c') = rets (driver c) @ [RetAll ns e]
                \<and> ops (driver c') = ds \<and> \<not> mid (driver c')"
    by (simp add: after_send_def finish_def log_recv_def)
qed

lemma successors_running:
  "c' \<in> set (successors c) \<Longrightarrow> panicked c = None"
  by (auto simp: successors_def split: if_splits)

lemma successors_panicked: "panicked c = Some x \<Longrightarrow> successors c = []"
  by (simp add: successors_def)

lemma recv_source2:
  assumes "c' \<in> set (successors c)" and "next_action (thr p c) = Recv"
    and "thr p c' \<noteq> thr p c"
  obtains r c1 where "c' = deliver p r c1" and "thr p c1 = thr p c"
    and "panicked c1 = None" and "failures c1 = failures c" and "closed c1 = closed c"
    and "r = None \<and> closed c \<or>
         \<not> closed c \<and> (\<exists>m. r = Some m \<and> next_action (thr (other p) c) = Send m
            \<and> thr (other p) c' = after_send m (thr (other p) c))"
proof -
  note np = successors_running [OF assms(1)]
  from recv_completes [OF assms] show thesis
  proof
    assume a: "\<not> closed c \<and> (\<exists>m. next_action (thr (other p) c) = Send m
            \<and> c' = deliver p (Some m) (set_thr (other p) (after_send m (thr (other p) c)) c))"
    then obtain m where m: "next_action (thr (other p) c) = Send m"
      "c' = deliver p (Some m) (set_thr (other p) (after_send m (thr (other p) c)) c)"
      by blast
    let ?c1 = "set_thr (other p) (after_send m (thr (other p) c)) c"
    have "thr (other p) c' = after_send m (thr (other p) c)"
      using deliver_thr(3) [of p "Some m" ?c1] m(2) by simp
    with a m np that [of "Some m" ?c1] show thesis by simp
  next
    assume "closed c \<and> c' = deliver p None c"
    with np that [of None c] show thesis by simp
  qed
qed

lemma deliver_wrong:
  assumes "ops (thr p c) = q # qs" and "expects q = Some T"
    and "map_option type_of r \<noteq> Some T"
  shows "deliver p r c =
     (set_thr p (log_recv r (thr p c)) c)\<lparr>panicked := Some (InterfaceConversion (map_option type_of r) T)\<rparr>"
  using assms
  by (cases q)
    (auto simp: deliver_def received_def log_recv_def split: option.splits Call.splits)

lemma after_recv_closed:
  assumes "after_recv p None t = Inr (t', reps)"
  shows "reps = []"
  using assms by (cases p) auto

lemma deliver_closed_failures: "failures (deliver p None c) = failures c"
  using after_recv_closed
  by (auto simp: deliver_def received_def split: sum.splits list.splits)

lemma deliver_AssertDone:
  assumes "ops (thr p c) = AssertDone # ps"
  shows "deliver p (Some m) c =
           (set_thr p ((log_recv (Some m) (thr p c))\<lparr>exited := True\<rparr>) c)\<lparr>failures := failures c @ [NoMoreCalls]\<rparr>"
    and "deliver p None c =
           (set_thr p (finish RetUnit (log_recv None (thr p c))) c)\<lparr>failures := failures c\<rparr>"
  using assms by (simp_all add: deliver_def received_def log_recv_def)

lemma AssertDone_closed:
  assumes "panicked c = None" and "\<not> exited (thr p c)" and "ops (thr p c) = AssertDone # ps"
    and "closed c"
  shows "deliver p None c \<in> set (successors c)"
    and "next_action (thr (other p) c) = Idle \<Longrightarrow> successors c = [deliver p None c]"
  using assms by (cases p; simp add: successors_def rendezvous_def alone_def next_action_def)+

lemma AssertDone_pending:
  assumes "panicked c = None" and "\<not> exited (thr p c)" and "ops (thr p c) = AssertDone # ps"
    and "\<not> closed c" and "next_action (thr (other p) c) = Send m"
  shows "successors c = [deliver p (Some m) (set_thr (other p) (after_send m (thr (other p) c)) c)]"
  using assms by (cases p; simp add: successors_def rendezvous_def alone_def next_action_def)

lemma AssertDone_step:
  assumes "c' \<in> set (successors c)" and "\<not> exited (thr p c)"
    and "ops (thr p c) = AssertDone # ps"
  shows "(failures c' \<noteq> failures c)
       = (\<not> closed c \<and> (\<exists>m. next_action (thr (other p) c) = Send m))"
proof -
  from assms(2,3) have na: "next_action (thr p c) = Recv"
    by (simp add: next_action_def)
  from assms(1) show ?thesis
  proof (cases rule: successors_cases)
    case (rendezvous q m)
    with na have "q = other p" using party_cases [of q p] by auto
    with rendezvous deliver_AssertDone(1) [of p "set_thr (other p) (after_send m (thr (other p) c)) c" ps m]
      assms(3)
    show ?thesis by simp
  next
    case (close q)
    with na have "q = other p" using party_cases [of q p] by auto
    with close show ?thesis by simp
  next
    case (close_closed q)
    then show ?thesis by simp
  next
    case (send_closed q m)
    then show ?thesis by simp
  next
    case (recv_closed q)
    then show ?thesis by (simp add: deliver_closed_failures)
  qed
qed

lemma type_of_allCall [simp]: "(type_of m = T_allCall) = (m = allCall)"
  by (cases m) simp_all

lemma All_round_sent:
  assumes "at_rest c"
    and "ops (driver c) = All_notes # ds"
    and "ops (verifier c) = AssertAll ns e # vs"
  shows "\<exists>c'. forced c c' \<and> rets (driver c') = rets (driver c) @ [RetAll ns e]
     \<and> sent (verifier c') = sent (verifier c) @ [allResp ns e]
     \<and> failures c' = failures c \<and> panicked c' = None"
proof -
  define c1 where "c1 = c\<lparr>driver := (driver c)\<lparr>mid := True, sent := sent (driver c) @ [allCall]\<rparr>,
      verifier := (verifier c)\<lparr>recvd := recvd (verifier c) @ [Some allCall], mid := True\<rparr>,
      failures := failures c\<rparr>"
  define c2 where "c2 = c1\<lparr>driver := (driver c1)\<lparr>recvd := recvd (driver c) @ [Some (allResp ns e)],
        ops := ds, mid := False, rets := rets (driver c) @ [RetAll ns e]\<rparr>,
      verifier := (verifier c1)\<lparr>sent := sent (verifier c) @ [allResp ns e],
        ops := vs, mid := False, rets := rets (verifier c) @ [RetUnit]\<rparr>\<rparr>"
  have s1: "successors c = [c1]"
    using assms by (simp add: sem at_rest_def c1_def)
  have s2: "successors c1 = [c2]"
    using assms by (simp add: sem at_rest_def c1_def c2_def)
  have p: "rets (driver c2) = rets (driver c) @ [RetAll ns e]
     \<and> sent (verifier c2) = sent (verifier c) @ [allResp ns e]
     \<and> failures c2 = failures c \<and> panicked c2 = None"
    using assms by (simp add: at_rest_def c1_def c2_def)
  from s1 s2 have "forced c c2" by (rule forced2)
  with p show ?thesis by blast
qed

lemma AssertAll_blocked:
  assumes "c' \<in> set (successors c)" and "\<not> exited (verifier c)"
    and "ops (verifier c) = AssertAll ns e # vs" and "\<not> mid (verifier c)"
    and "\<not> closed c" and "\<forall>m. next_action (driver c) \<noteq> Send m"
  shows "verifier c' = verifier c \<and> failures c' = failures c \<and> panicked c' = None"
proof -
  from assms(2,3,4) have na: "next_action (thr Verifier c) = Recv"
    by (simp add: next_action_def)
  from assms(1) show ?thesis
  proof (cases rule: successors_cases)
    case (rendezvous q m)
    with na assms(6) show ?thesis by (cases q) simp_all
  next
    case (close q)
    with na show ?thesis by (cases q) simp_all
  next
    case (close_closed q)
    with assms(5) show ?thesis by simp
  next
    case (send_closed q m)
    with assms(5) show ?thesis by simp
  next
    case (recv_closed q)
    with assms(5) show ?thesis by simp
  qed
qed

lemma AssertAll_open:
  assumes "panicked c = None" and "\<not> exited (verifier c)"
    and "ops (verifier c) = AssertAll ns e # vs" and "\<not> mid (verifier c)"
    and "\<not> closed c" and "next_action (driver c) = Send m"
  shows "successors c = [deliver Verifier (Some m) (c\<lparr>driver := after_send m (driver c)\<rparr>)]"
  using assms by (simp add: successors_def rendezvous_def alone_def next_action_def)

lemma AssertAll_closed:
  assumes "panicked c = None" and "\<not> exited (verifier c)"
    and "ops (verifier c) = AssertAll ns e # vs" and "\<not> mid (verifier c)"
    and "closed c"
  shows "deliver Verifier None c \<in> set (successors c)"
  using assms by (simp add: successors_def rendezvous_def alone_def next_action_def)

lemma deliver_AssertAll:
  assumes "ops (verifier c) = AssertAll ns e # vs"
  shows "deliver Verifier (Some allCall) c =
     c\<lparr>verifier := (log_recv (Some allCall) (verifier c))\<lparr>mid := True\<rparr>, failures := failures c\<rparr>"
  using assms by (simp add: deliver_def received_def log_recv_def)

lemma crossed_step:
  assumes "at_rest c" and "crossed a p"
    and "ops (driver c) = p # ds" and "ops (verifier c) = a # vs"
  shows "\<exists>c'. successors c = [c']
     \<and> (panicked c' = Some (InterfaceConversion (Some T_createCall) T_allCall)
        \<or> panicked c' = Some (InterfaceConversion (Some T_allCall) T_createCall))
     \<and> rets (driver c') = rets (driver c) \<and> ops (driver c') = p # ds
     \<and> failures c' = failures c"
  using assms(2,1,3,4)
proof (induction a p rule: crossed.induct)
  case (1 ns e n)
  then show ?case by (simp add: sem at_rest_def)
next
  case (2 x e)
  then show ?case by (simp add: sem at_rest_def)
qed simp_all

lemma forced_snoc: "forced c c1 \<Longrightarrow> successors c1 = [c2] \<Longrightarrow> forced c c2"
  by (blast intro: forced_trans forced.intros)

lemma crossed_after_matched:
  assumes "list_all2 answers asserts calls" and "crossed a p" and "at_rest c"
    and "ops (driver c) = calls @ p # ds" and "ops (verifier c) = asserts @ a # vs"
  shows "\<exists>c'. forced c c'
     \<and> (panicked c' = Some (InterfaceConversion (Some T_createCall) T_allCall)
        \<or> panicked c' = Some (InterfaceConversion (Some T_allCall) T_createCall))
     \<and> test_failed c' \<and> successors c' = []
     \<and> rets (driver c') = rets (driver c) @ map response asserts
     \<and> ops (driver c') = p # ds"
proof -
  from matched_rounds [OF assms(1,3,4,5)]
  obtain c1 where c1: "forced c c1" "at_rest c1" "ops (driver c1) = p # ds"
    "ops (verifier c1) = a # vs" "rets (driver c1) = rets (driver c) @ map response asserts"
    by blast
  from crossed_step [OF c1(2) assms(2) c1(3,4)]
  obtain c2 where c2: "successors c1 = [c2]"
    "panicked c2 = Some (InterfaceConversion (Some T_createCall) T_allCall)
        \<or> panicked c2 = Some (InterfaceConversion (Some T_allCall) T_createCall)"
    "rets (driver c2) = rets (driver c1)" "ops (driver c2) = p # ds"
    by blast
  from c1(1) c2(1) have f: "forced c c2" by (rule forced_snoc)
  from c2(2) have "successors c2 = []" "test_failed c2"
    by (auto simp: successors_def test_failed_def)
  with f c2 c1(5) show ?thesis by (intro exI [of _ c2]) simp
qed

lemma blocked_after_matched:
  assumes "list_all2 answers asserts calls" and "p = Create n \<or> p = All_notes" and "at_rest c"
    and "ops (driver c) = calls @ p # ds" and "ops (verifier c) = asserts"
  shows "\<exists>c'. forced c c' \<and> successors c' = [] \<and> panicked c' = None \<and> failures c' = failures c @ concat (map2 mismatch asserts calls)
     \<and> rets (driver c') = rets (driver c) @ map response asserts
     \<and> ops (driver c') = p # ds"
proof -
  from assms(5) have "ops (verifier c) = asserts @ []" by simp
  from matched_rounds [OF assms(1,3,4) this]
  obtain c1 where c1: "forced c c1" "at_rest c1" "ops (driver c1) = p # ds"
    "ops (verifier c1) = []" "rets (driver c1) = rets (driver c) @ map response asserts"
    "failures c1 = failures c @ concat (map2 mismatch asserts calls)"
    by blast
  from c1(2,3,4) assms(2) have "successors c1 = []"
    by (auto simp: sem at_rest_def)
  with c1 show ?thesis by (intro exI [of _ c1]) (simp add: at_rest_def)
qed

section \<open>The properties\<close>

text \<open>
  C10: whenever the backend's \<^verbatim>\<open>All\<close> returns an error that is not nil, \<^verbatim>\<open>Items\<close> returns
  that same error together with an empty slice that is not nil, and maps no note.
\<close>

theorem Items_backend_error:
  assumes "API_All api s = ((notes, Some e), s')"
  shows "GroceryList_Items api s = (Inr (Some [], Some e), s')"
  using assms by (simp add: GroceryList_Items_def Items_result_def)

theorem Items_backend_error_witness:
  "API_All \<lparr>API_Create = (\<lambda>n s. (None, s)),
            API_All = (\<lambda>s. ((Some [Some \<lparr>Text = ''apples''\<rparr>], Some (GoError ''down'')), Suc s))\<rparr> (0::nat)
     = ((Some [Some \<lparr>Text = ''apples''\<rparr>], Some (GoError ''down'')), 1)
   \<and> GroceryList_Items \<lparr>API_Create = (\<lambda>n s. (None, s)),
            API_All = (\<lambda>s. ((Some [Some \<lparr>Text = ''apples''\<rparr>], Some (GoError ''down'')), Suc s))\<rparr> (0::nat)
     = (Inr (Some [], Some (GoError ''down'')), 1)"
  using Items_backend_error [of "\<lparr>API_Create = (\<lambda>n s. (None, s)),
            API_All = (\<lambda>s. ((Some [Some \<lparr>Text = ''apples''\<rparr>], Some (GoError ''down'')), Suc s))\<rparr>"
          "0::nat" "Some [Some \<lparr>Text = ''apples''\<rparr>]" "GoError ''down''" "1::nat"]
  by simp


text \<open>
  C1: for every sequence of calls of the double (\<^verbatim>\<open>Create\<close>, \<^verbatim>\<open>All\<close>) run by the driver and
  the matching sequence of assertions (\<^verbatim>\<open>AssertCreate\<close>, \<^verbatim>\<open>AssertAll\<close>) run by the verifier
  in the same order, every execution runs through all the round trips, and the i-th call
  returns exactly what the i-th assertion was given: \<^verbatim>\<open>Create\<close> the error passed to
  \<^verbatim>\<open>AssertCreate\<close>, \<^verbatim>\<open>All\<close> the notes and the error passed to \<^verbatim>\<open>AssertAll\<close>.  The double
  makes up no error and changes none.
\<close>

theorem responses_in_order:
  assumes "list_all2 answers asserts calls" and "at_rest c"
    and "ops (driver c) = calls @ ds" and "ops (verifier c) = asserts @ vs"
  shows "\<exists>c'. forced c c'
     \<and> rets (driver c') = rets (driver c) @ map response asserts
     \<and> (\<forall>i<length asserts. rets (driver c') ! (length (rets (driver c)) + i) = response (asserts ! i))
     \<and> ops (driver c') = ds \<and> ops (verifier c') = vs \<and> at_rest c'"
proof -
  from matched_rounds [OF assms]
  obtain c' where c': "forced c c'" "at_rest c'" "ops (driver c') = ds" "ops (verifier c') = vs"
    "rets (driver c') = rets (driver c) @ map response asserts"
    by blast
  from c'(5) have "\<forall>i<length asserts. rets (driver c') ! (length (rets (driver c)) + i) = response (asserts ! i)"
    by simp
  with c' show ?thesis by blast
qed

theorem responses_in_order_witness:
  "list_all2 answers
     [AssertCreate (Some \<lparr>Text = ''apples''\<rparr>) (Some (GoError ''full'')),
      AssertAll (Some [Some \<lparr>Text = ''apples''\<rparr>]) None,
      AssertCreate (Some \<lparr>Text = ''pears''\<rparr>) None]
     [Create (Some \<lparr>Text = ''apples''\<rparr>), All_notes, Create (Some \<lparr>Text = ''plums''\<rparr>)]
   \<and> at_rest (NewFakeClient
        [Create (Some \<lparr>Text = ''apples''\<rparr>), All_notes, Create (Some \<lparr>Text = ''plums''\<rparr>), AssertDone]
        [AssertCreate (Some \<lparr>Text = ''apples''\<rparr>) (Some (GoError ''full'')),
         AssertAll (Some [Some \<lparr>Text = ''apples''\<rparr>]) None,
         AssertCreate (Some \<lparr>Text = ''pears''\<rparr>) None, Close])
   \<and> (\<exists>c'. forced (NewFakeClient
        [Create (Some \<lparr>Text = ''apples''\<rparr>), All_notes, Create (Some \<lparr>Text = ''plums''\<rparr>), AssertDone]
        [AssertCreate (Some \<lparr>Text = ''apples''\<rparr>) (Some (GoError ''full'')),
         AssertAll (Some [Some \<lparr>Text = ''apples''\<rparr>]) None,
         AssertCreate (Some \<lparr>Text = ''pears''\<rparr>) None, Close]) c'
      \<and> rets (driver c') =
          [RetCreate (Some (GoError ''full'')), RetAll (Some [Some \<lparr>Text = ''apples''\<rparr>]) None,
           RetCreate None]
      \<and> ops (driver c') = [AssertDone] \<and> ops (verifier c') = [Close])"
proof -
  let ?asserts = "[AssertCreate (Some \<lparr>Text = ''apples''\<rparr>) (Some (GoError ''full'')),
      AssertAll (Some [Some \<lparr>Text = ''apples''\<rparr>]) None,
      AssertCreate (Some \<lparr>Text = ''pears''\<rparr>) None]"
  let ?calls = "[Create (Some \<lparr>Text = ''apples''\<rparr>), All_notes, Create (Some \<lparr>Text = ''plums''\<rparr>)]"
  let ?c = "NewFakeClient (?calls @ [AssertDone]) (?asserts @ [Close])"
  have m: "list_all2 answers ?asserts ?calls" by simp
  have r: "at_rest ?c" by (simp add: at_rest_def NewFakeClient_def new_thread_def)
  have d: "ops (driver ?c) = ?calls @ [AssertDone]" "ops (verifier ?c) = ?asserts @ [Close]"
    by (simp_all add: NewFakeClient_def new_thread_def)
  from responses_in_order [OF m r d]
  obtain c' where "forced ?c c'" "rets (driver c') = rets (driver ?c) @ map response ?asserts"
    "ops (driver c') = [AssertDone]" "ops (verifier c') = [Close]"
    by blast
  then have "forced ?c c' \<and> rets (driver c') =
          [RetCreate (Some (GoError ''full'')), RetAll (Some [Some \<lparr>Text = ''apples''\<rparr>]) None,
           RetCreate None]
      \<and> ops (driver c') = [AssertDone] \<and> ops (verifier c') = [Close]"
    by (simp add: NewFakeClient_def new_thread_def)
  then have "\<exists>c'. forced ?c c' \<and> rets (driver c') =
          [RetCreate (Some (GoError ''full'')), RetAll (Some [Some \<lparr>Text = ''apples''\<rparr>]) None,
           RetCreate None]
      \<and> ops (driver c') = [AssertDone] \<and> ops (verifier c') = [Close]" ..
  with m r show ?thesis by simp
qed

text \<open>
  The six steps of \<^verbatim>\<open>TestGroceryList\<close>, each the only step the program can take.
\<close>

lemma TestGroceryList_run:
  "run 6 TestGroceryList =
    \<lparr>driver =
       \<lparr>ops = [], mid = False,
          rets = [RetCreate None, RetItems (Some [''apples'']) None, RetUnit],
          exited = False,
          sent = [createCall (Some \<lparr>Text = ''apples''\<rparr>), allCall],
          recvd =
            [Some (createResp None),
             Some (allResp (Some [Some \<lparr>Text = ''apples''\<rparr>]) None), None]\<rparr>,
     verifier =
       \<lparr>ops = [], mid = False, rets = [RetUnit, RetUnit, RetUnit],
          exited = False,
          sent = [createResp None, allResp (Some [Some \<lparr>Text = ''apples''\<rparr>]) None],
          recvd = [Some (createCall (Some \<lparr>Text = ''apples''\<rparr>)), Some allCall]\<rparr>,
     closed = True, failures = [], panicked = None\<rparr>"
  by (simp add: eval_nat_numeral TestGroceryList_def NewFakeClient_def new_thread_def sem
      Items_result_def slice_list_def fill_items.simps)

text \<open>
  C2: in \<^verbatim>\<open>TestGroceryList\<close> every execution ends in the same configuration: \<^verbatim>\<open>Create\<close>
  (called by \<^verbatim>\<open>AddItem("apples")\<close>) has returned nil, \<^verbatim>\<open>Items()\<close> has returned
  \<^verbatim>\<open>(["apples"], nil)\<close>, the final \<^verbatim>\<open>AssertDone\<close> has returned, and nothing was reported and
  nothing panicked.
\<close>

theorem TestGroceryList_passes:
  "\<exists>c'. forced TestGroceryList c' \<and> successors c' = []
     \<and> rets (driver c') = [RetCreate None, RetItems (Some [''apples'']) None, RetUnit]
     \<and> ops (driver c') = [] \<and> ops (verifier c') = [] \<and> closed c'
     \<and> failures c' = [] \<and> panicked c' = None \<and> \<not> test_failed c'"
proof (intro exI [of _ "run 6 TestGroceryList"] conjI)
  show "forced TestGroceryList (run 6 TestGroceryList)" by (rule forced_run)
  show "successors (run 6 TestGroceryList) = []"
    by (simp add: TestGroceryList_run sem)
qed (simp_all add: TestGroceryList_run test_failed_def)

text \<open>
  C4: when \<^verbatim>\<open>AssertCreate(expected, err)\<close> meets a call \<^verbatim>\<open>Create(actual)\<close> whose note differs
  from the expected one, exactly one report is made, by \<^verbatim>\<open>t.Error\<close> (not fatal: the
  verifier goes on), and the round trip still completes: \<^verbatim>\<open>Create\<close> returns \<open>err\<close>.
\<close>

theorem mismatch_reported_once:
  assumes "at_rest c"
    and "ops (driver c) = Create (Some actual) # ds"
    and "ops (verifier c) = AssertCreate (Some expected) err # vs"
    and "actual \<noteq> expected"
  shows "\<exists>c'. forced c c'
     \<and> failures c' = failures c @ [ExpectedCreate expected actual]
     \<and> \<not> fatal (ExpectedCreate expected actual)
     \<and> panicked c' = None \<and> \<not> exited (verifier c') \<and> ops (verifier c') = vs
     \<and> rets (driver c') = rets (driver c) @ [RetCreate err] \<and> ops (driver c') = ds"
proof -
  from Create_round [OF assms(1,2,3)]
  obtain c' where c': "forced c c'" "at_rest c'" "ops (driver c') = ds" "ops (verifier c') = vs"
    "rets (driver c') = rets (driver c) @ [RetCreate err]"
    "failures c' = failures c @ (if actual \<noteq> expected then [ExpectedCreate expected actual] else [])"
    by blast
  from c'(6) assms(4) have "failures c' = failures c @ [ExpectedCreate expected actual]"
    by simp
  with c' show ?thesis by (intro exI [of _ c']) (simp add: at_rest_def)
qed


theorem mismatch_reported_once_witness:
  "at_rest (NewFakeClient [Create (Some \<lparr>Text = ''plums''\<rparr>)]
       [AssertCreate (Some \<lparr>Text = ''apples''\<rparr>) (Some (GoError ''full''))])
   \<and> \<lparr>Text = ''plums''\<rparr> \<noteq> \<lparr>Text = ''apples''\<rparr>
   \<and> (\<exists>c'. forced (NewFakeClient [Create (Some \<lparr>Text = ''plums''\<rparr>)]
                [AssertCreate (Some \<lparr>Text = ''apples''\<rparr>) (Some (GoError ''full''))]) c'
        \<and> failures c' = [ExpectedCreate \<lparr>Text = ''apples''\<rparr> \<lparr>Text = ''plums''\<rparr>]
        \<and> panicked c' = None \<and> \<not> exited (verifier c')
        \<and> rets (driver c') = [RetCreate (Some (GoError ''full''))])"
proof -
  let ?c = "NewFakeClient [Create (Some \<lparr>Text = ''plums''\<rparr>)]
       [AssertCreate (Some \<lparr>Text = ''apples''\<rparr>) (Some (GoError ''full''))]"
  have r: "at_rest ?c" by (simp add: at_rest_def NewFakeClient_def new_thread_def)
  have d: "ops (driver ?c) = Create (Some \<lparr>Text = ''plums''\<rparr>) # []"
    "ops (verifier ?c) = AssertCreate (Some \<lparr>Text = ''apples''\<rparr>) (Some (GoError ''full'')) # []"
    by (simp_all add: NewFakeClient_def new_thread_def)
  have n: "\<lparr>Text = ''plums''\<rparr> \<noteq> \<lparr>Text = ''apples''\<rparr>" by simp
  have f: "failures ?c = []" "rets (driver ?c) = []"
    by (simp_all add: NewFakeClient_def new_thread_def)
  from mismatch_reported_once [OF r d n]
  obtain c' where c': "forced ?c c'"
    "failures c' = failures ?c @ [ExpectedCreate \<lparr>Text = ''apples''\<rparr> \<lparr>Text = ''plums''\<rparr>]"
    "panicked c' = None" "\<not> exited (verifier c')"
    "rets (driver c') = rets (driver ?c) @ [RetCreate (Some (GoError ''full''))]"
    by (elim exE conjE)
  from c'(2,5) have g: "failures c' = [ExpectedCreate \<lparr>Text = ''apples''\<rparr> \<lparr>Text = ''plums''\<rparr>]"
    "rets (driver c') = [RetCreate (Some (GoError ''full''))]"
    unfolding f by simp_all
  from c'(1,3,4) g have "\<exists>c'. forced ?c c'
        \<and> failures c' = [ExpectedCreate \<lparr>Text = ''apples''\<rparr> \<lparr>Text = ''plums''\<rparr>]
        \<and> panicked c' = None \<and> \<not> exited (verifier c')
        \<and> rets (driver c') = [RetCreate (Some (GoError ''full''))]"
    by (intro exI [of _ c'] conjI)
  with r n show ?thesis by (intro conjI)
qed

text \<open>
  C8: when the paired \<^verbatim>\<open>AssertAll\<close> supplies notes (none of them nil) and a nil error,
  \<^verbatim>\<open>GroceryList.Items\<close>, which calls \<^verbatim>\<open>All\<close> and maps every note to its \<^verbatim>\<open>Text\<close>, returns
  exactly the texts of these notes, in order, and no error; for the one note "apples" it
  returns \<^verbatim>\<open>(["apples"], nil)\<close>.
\<close>

theorem Items_round_trip:
  assumes "at_rest c"
    and "ops (driver c) = Items # ds"
    and "ops (verifier c) = AssertAll (Some (map Some notes)) None # vs"
  shows "\<exists>c'. forced c c'
     \<and> rets (driver c') = rets (driver c) @ [RetItems (Some (map Text notes)) None]
     \<and> ops (driver c') = ds \<and> ops (verifier c') = vs
     \<and> failures c' = failures c \<and> panicked c' = None"
proof -
  from Items_round [OF assms Items_result_notes]
  obtain c' where "forced c c'" "at_rest c'" "ops (driver c') = ds" "ops (verifier c') = vs"
    "rets (driver c') = rets (driver c) @ [RetItems (Some (map Text notes)) None]"
    "failures c' = failures c"
    by blast
  then show ?thesis by (intro exI [of _ c']) (simp add: at_rest_def)
qed

theorem Items_round_trip_witness:
  "at_rest (NewFakeClient [Items, AssertDone] [AssertAll (Some [Some \<lparr>Text = ''apples''\<rparr>]) None, Close])
   \<and> (\<exists>c'. forced (NewFakeClient [Items, AssertDone]
                 [AssertAll (Some [Some \<lparr>Text = ''apples''\<rparr>]) None, Close]) c'
        \<and> rets (driver c') = [RetItems (Some [''apples'']) None]
        \<and> failures c' = [] \<and> panicked c' = None)"
proof -
  let ?c = "NewFakeClient [Items, AssertDone] [AssertAll (Some [Some \<lparr>Text = ''apples''\<rparr>]) None, Close]"
  have r: "at_rest ?c" by (simp add: at_rest_def NewFakeClient_def new_thread_def)
  have d: "ops (driver ?c) = Items # [AssertDone]"
    "ops (verifier ?c) = AssertAll (Some (map Some [\<lparr>Text = ''apples''\<rparr>])) None # [Close]"
    by (simp_all add: NewFakeClient_def new_thread_def)
  from Items_round_trip [OF r d]
  obtain c' where "forced ?c c'"
    "rets (driver c') = rets (driver ?c) @ [RetItems (Some (map Text [\<lparr>Text = ''apples''\<rparr>])) None]"
    "failures c' = failures ?c" "panicked c' = None"
    by blast
  then have "forced ?c c' \<and> rets (driver c') = [RetItems (Some [''apples'']) None]
        \<and> failures c' = [] \<and> panicked c' = None"
    by (simp add: NewFakeClient_def new_thread_def)
  then have "\<exists>c'. forced ?c c' \<and> rets (driver c') = [RetItems (Some [''apples'']) None]
        \<and> failures c' = [] \<and> panicked c' = None" ..
  with r show ?thesis by blast
qed

text \<open>
  C3: the protocol alternates in lockstep.  In every step of every configuration: the
  double's \<^verbatim>\<open>Create\<close> or \<^verbatim>\<open>All\<close> gets past its send only in a rendezvous on the open channel
  in which the verifier receives that very call (one receive, and unless the program
  panics or the verifier's goroutine ends, it is the receive of \<^verbatim>\<open>AssertCreate\<close>, of
  \<^verbatim>\<open>AssertAll\<close>); and the double's method returns only in a rendezvous in which the verifier,
  in the second half of the assertion for that method, sends the one response of the
  matching variant, which ends the assertion and whose payload the method returns.
\<close>

theorem lockstep:
  assumes "c' \<in> set (successors c)" and "\<not> exited (driver c)"
  shows "(\<not> mid (driver c) \<and> driver c' \<noteq> driver c \<longrightarrow>
          (ops (driver c) = Create n # ds \<longrightarrow>
             \<not> closed c \<and> next_action (verifier c) = Recv
             \<and> driver c' = after_send (createCall n) (driver c)
             \<and> recvd (verifier c') = recvd (verifier c) @ [Some (createCall n)]
             \<and> (panicked c' = None \<and> \<not> exited (verifier c') \<longrightarrow>
                  (\<exists>x e vs. ops (verifier c) = AssertCreate x e # vs \<and> \<not> mid (verifier c)
                     \<and> mid (verifier c'))))
        \<and> (ops (driver c) = All_notes # ds \<longrightarrow>
             \<not> closed c \<and> next_action (verifier c) = Recv
             \<and> driver c' = after_send allCall (driver c)
             \<and> recvd (verifier c') = recvd (verifier c) @ [Some allCall]
             \<and> (panicked c' = None \<and> \<not> exited (verifier c') \<longrightarrow>
                  (\<exists>ns e vs. ops (verifier c) = AssertAll ns e # vs \<and> \<not> mid (verifier c)
                     \<and> mid (verifier c')))))
     \<and> (mid (driver c) \<and> rets (driver c') \<noteq> rets (driver c) \<longrightarrow>
          (ops (driver c) = Create n # ds \<longrightarrow>
             \<not> closed c
             \<and> (\<exists>x e vs. ops (verifier c) = AssertCreate x e # vs \<and> mid (verifier c)
                  \<and> sent (verifier c') = sent (verifier c) @ [createResp e]
                  \<and> ops (verifier c') = vs \<and> \<not> mid (verifier c')
                  \<and> rets (driver c') = rets (driver c) @ [RetCreate e]
                  \<and> ops (driver c') = ds \<and> \<not> mid (driver c')))
        \<and> (ops (driver c) = All_notes # ds \<longrightarrow>
             \<not> closed c
             \<and> (\<exists>ns e vs. ops (verifier c) = AssertAll ns e # vs \<and> mid (verifier c)
                  \<and> sent (verifier c') = sent (verifier c) @ [allResp ns e]
                  \<and> ops (verifier c') = vs \<and> \<not> mid (verifier c')
                  \<and> rets (driver c') = rets (driver c) @ [RetAll ns e]
                  \<and> ops (driver c') = ds \<and> \<not> mid (driver c'))))"
  (is "(?p1 \<longrightarrow> ?q1) \<and> (?p2 \<longrightarrow> ?q2)")
proof (rule conjI)
  show "?p1 \<longrightarrow> ?q1"
  proof (rule impI)
    assume ?p1
    then have "\<not> mid (driver c)" "driver c' \<noteq> driver c" by simp_all
    from call_consumed [OF assms this] show ?q1 .
  qed
  show "?p2 \<longrightarrow> ?q2"
  proof (rule impI)
    assume ?p2
    then have "mid (driver c)" "rets (driver c') \<noteq> rets (driver c)" by simp_all
    from response_sent [OF assms this] show ?q2 .
  qed
qed

text \<open>
  C5: \<^verbatim>\<open>AssertDone\<close> reports a failure if and only if a value is still pending on the open
  channel.  After \<^verbatim>\<open>Close\<close>, with the other goroutine finished, it returns and reports
  nothing; on the open channel with the other goroutine standing at a send, it receives
  that value and reports \<^verbatim>\<open>t.Fatal("Did not expect more calls")\<close>, which ends its goroutine;
  and in every step from a configuration where a goroutine stands at \<^verbatim>\<open>AssertDone\<close>, a
  report is made exactly when the channel is open and the other goroutine stands at a send.
\<close>

theorem AssertDone_reports:
  assumes "panicked c = None" and "\<not> exited (thr p c)" and "ops (thr p c) = AssertDone # ps"
  shows "(closed c \<and> next_action (thr (other p) c) = Idle \<longrightarrow>
           (\<exists>c'. successors c = [c'] \<and> failures c' = failures c \<and> panicked c' = None
              \<and> ops (thr p c') = ps \<and> rets (thr p c') = rets (thr p c) @ [RetUnit]
              \<and> \<not> exited (thr p c')))
       \<and> (\<not> closed c \<and> next_action (thr (other p) c) = Send m \<longrightarrow>
           (\<exists>c'. successors c = [c'] \<and> failures c' = failures c @ [NoMoreCalls]
              \<and> fatal NoMoreCalls \<and> exited (thr p c') \<and> rets (thr p c') = rets (thr p c)))
       \<and> (\<forall>c' \<in> set (successors c).
             (failures c' \<noteq> failures c)
               = (\<not> closed c \<and> (\<exists>m. next_action (thr (other p) c) = Send m)))"
proof (intro conjI impI ballI)
  assume a: "closed c \<and> next_action (thr (other p) c) = Idle"
  with AssertDone_closed(2) [OF assms] have "successors c = [deliver p None c]" by simp
  with assms show "\<exists>c'. successors c = [c'] \<and> failures c' = failures c \<and> panicked c' = None
              \<and> ops (thr p c') = ps \<and> rets (thr p c') = rets (thr p c) @ [RetUnit]
              \<and> \<not> exited (thr p c')"
    by (simp add: deliver_AssertDone(2) [OF assms(3)] finish_def log_recv_def)
next
  assume a: "\<not> closed c \<and> next_action (thr (other p) c) = Send m"
  let ?c1 = "set_thr (other p) (after_send m (thr (other p) c)) c"
  from a AssertDone_pending [OF assms, of m]
  have s: "successors c = [deliver p (Some m) ?c1]" by simp
  have o: "ops (thr p ?c1) = AssertDone # ps" using assms(3) by simp
  from s assms show "\<exists>c'. successors c = [c'] \<and> failures c' = failures c @ [NoMoreCalls]
              \<and> fatal NoMoreCalls \<and> exited (thr p c') \<and> rets (thr p c') = rets (thr p c)"
    by (simp add: deliver_AssertDone(1) [OF o] log_recv_def)
next
  fix c' assume "c' \<in> set (successors c)"
  from AssertDone_step [OF this assms(2,3)]
  show "(failures c' \<noteq> failures c)
       = (\<not> closed c \<and> (\<exists>m. next_action (thr (other p) c) = Send m))" .
qed

text \<open>
  C6: \<^verbatim>\<open>AssertAll(notes, err)\<close> blocks until it receives one value: on the open channel
  with no sender the verifier does not move.  When the value is the call of \<^verbatim>\<open>All\<close>, nothing
  is reported and the verifier goes on to send \<^verbatim>\<open>allResp{notes, err}\<close>, which \<^verbatim>\<open>All\<close> returns.
  When the channel yields a value of another variant, or is closed and yields nil, the
  test fails: the type assertion panics, and no response is sent.
\<close>

theorem AssertAll_receives:
  assumes "panicked c = None" and "\<not> exited (verifier c)"
    and "ops (verifier c) = AssertAll ns e # vs" and "\<not> mid (verifier c)"
  shows "(\<not> closed c \<and> (\<forall>m. next_action (driver c) \<noteq> Send m) \<longrightarrow>
           (\<forall>c' \<in> set (successors c).
              verifier c' = verifier c \<and> failures c' = failures c \<and> panicked c' = None))
       \<and> (\<not> closed c \<and> next_action (driver c) = Send allCall \<longrightarrow>
           (\<exists>c'. successors c = [c'] \<and> recvd (verifier c') = recvd (verifier c) @ [Some allCall]
              \<and> failures c' = failures c \<and> panicked c' = None
              \<and> next_action (verifier c') = Send (allResp ns e)))
       \<and> (at_rest c \<and> ops (driver c) = All_notes # ds \<longrightarrow>
           (\<exists>c'. forced c c' \<and> rets (driver c') = rets (driver c) @ [RetAll ns e]
              \<and> sent (verifier c') = sent (verifier c) @ [allResp ns e]
              \<and> failures c' = failures c \<and> panicked c' = None))
       \<and> (\<not> closed c \<and> next_action (driver c) = Send m \<and> m \<noteq> allCall \<longrightarrow>
           (\<exists>c'. successors c = [c']
              \<and> panicked c' = Some (InterfaceConversion (Some (type_of m)) T_allCall)
              \<and> test_failed c' \<and> sent (verifier c') = sent (verifier c)
              \<and> successors c' = []))
       \<and> (closed c \<longrightarrow>
           (\<exists>c' \<in> set (successors c). recvd (verifier c') = recvd (verifier c) @ [None]
              \<and> panicked c' = Some (InterfaceConversion None T_allCall)
              \<and> test_failed c' \<and> sent (verifier c') = sent (verifier c)))"
proof (intro conjI impI ballI)
  fix c' assume "\<not> closed c \<and> (\<forall>m. next_action (driver c) \<noteq> Send m)" "c' \<in> set (successors c)"
  with AssertAll_blocked [OF _ assms(2,3,4)]
  show "verifier c' = verifier c" "failures c' = failures c" "panicked c' = None"
    by blast+
next
  assume a: "\<not> closed c \<and> next_action (driver c) = Send allCall"
  let ?c1 = "c\<lparr>driver := after_send allCall (driver c)\<rparr>"
  from a AssertAll_open [OF assms, of allCall]
  have s: "successors c = [deliver Verifier (Some allCall) ?c1]" by simp
  have o: "ops (verifier ?c1) = AssertAll ns e # vs" using assms(3) by simp
  from s assms show "\<exists>c'. successors c = [c'] \<and> recvd (verifier c') = recvd (verifier c) @ [Some allCall]
              \<and> failures c' = failures c \<and> panicked c' = None
              \<and> next_action (verifier c') = Send (allResp ns e)"
    by (simp add: deliver_AssertAll [OF o] log_recv_def next_action_def)
next
  assume "at_rest c \<and> ops (driver c) = All_notes # ds"
  with All_round_sent [of c ds ns e vs] assms(3)
  show "\<exists>c'. forced c c' \<and> rets (driver c') = rets (driver c) @ [RetAll ns e]
              \<and> sent (verifier c') = sent (verifier c) @ [allResp ns e]
              \<and> failures c' = failures c \<and> panicked c' = None"
    by simp
next
  assume a: "\<not> closed c \<and> next_action (driver c) = Send m \<and> m \<noteq> allCall"
  let ?c1 = "c\<lparr>driver := after_send m (driver c)\<rparr>"
  let ?c' = "deliver Verifier (Some m) ?c1"
  from a AssertAll_open [OF assms, of m]
  have s: "successors c = [?c']" by simp
  have o: "ops (thr Verifier ?c1) = AssertAll ns e # vs" using assms(3) by simp
  have w: "map_option type_of (Some m) \<noteq> Some T_allCall" using a by simp
  from deliver_wrong [OF o _ w]
  have c': "?c' = (set_thr Verifier (log_recv (Some m) (thr Verifier ?c1)) ?c1)
        \<lparr>panicked := Some (InterfaceConversion (map_option type_of (Some m)) T_allCall)\<rparr>"
    by simp
  have p: "panicked ?c' = Some (InterfaceConversion (Some (type_of m)) T_allCall)"
    by (subst c') simp
  moreover from p have "successors ?c' = []" by (rule successors_panicked)
  moreover from p have "test_failed ?c'" by (simp add: test_failed_def)
  moreover have "sent (verifier ?c') = sent (verifier c)"
    by (subst c') (simp add: log_recv_def)
  ultimately show "\<exists>c'. successors c = [c']
              \<and> panicked c' = Some (InterfaceConversion (Some (type_of m)) T_allCall)
              \<and> test_failed c' \<and> sent (verifier c') = sent (verifier c)
              \<and> successors c' = []"
    using s by (intro exI [of _ ?c']) simp
next
  assume a: "closed c"
  let ?c' = "deliver Verifier None c"
  have o: "ops (thr Verifier c) = AssertAll ns e # vs" using assms(3) by simp
  have w: "map_option type_of None \<noteq> Some T_allCall" by simp
  from deliver_wrong [OF o _ w]
  have c': "?c' = (set_thr Verifier (log_recv None (thr Verifier c)) c)
        \<lparr>panicked := Some (InterfaceConversion (map_option type_of None) T_allCall)\<rparr>"
    by simp
  have p: "panicked ?c' = Some (InterfaceConversion None T_allCall)"
    by (subst c') simp
  moreover from p have "test_failed ?c'" by (simp add: test_failed_def)
  moreover have "sent (verifier ?c') = sent (verifier c)"
    "recvd (verifier ?c') = recvd (verifier c) @ [None]"
    by (subst c', simp add: log_recv_def)+
  moreover note AssertAll_closed [OF assms a]
  ultimately show "\<exists>c' \<in> set (successors c). recvd (verifier c') = recvd (verifier c) @ [None]
              \<and> panicked c' = Some (InterfaceConversion None T_allCall)
              \<and> test_failed c' \<and> sent (verifier c') = sent (verifier c)"
    by (intro bexI [of _ ?c']) simp_all
qed

text \<open>
  C7: receiving a value of the wrong variant is fatal, never a silent success and never a
  recoverable report.  In any step in which a goroutine, running a method that asserts a
  type (\<^verbatim>\<open>Create\<close>, \<^verbatim>\<open>All\<close>, \<^verbatim>\<open>AssertCreate\<close>, \<^verbatim>\<open>AssertAll\<close>), receives a value of another
  variant (or the nil of the closed channel), the type assertion panics with the type
  found and the type asserted: the method does not return, nothing is reported through
  \<^verbatim>\<open>t.Error\<close>, and the program takes no further step.  The witness is the verifier running
  \<^verbatim>\<open>AssertAll\<close> while the driver calls \<^verbatim>\<open>Create\<close>.
\<close>

theorem wrong_variant_fatal:
  assumes "c' \<in> set (successors c)"
    and "ops (thr p c) = q # qs" and "expects q = Some T"
    and "next_action (thr p c) = Recv"
    and "recvd (thr p c') = recvd (thr p c) @ [r]"
    and "map_option type_of r \<noteq> Some T"
  shows "panicked c' = Some (InterfaceConversion (map_option type_of r) T)
     \<and> rets (thr p c') = rets (thr p c) \<and> ops (thr p c') = ops (thr p c)
     \<and> failures c' = failures c \<and> test_failed c' \<and> successors c' = []"
proof -
  from assms(5) have ch: "thr p c' \<noteq> thr p c" by auto
  from recv_source2 [OF assms(1,4) ch]
  obtain r' c1 where c1: "c' = deliver p r' c1" "thr p c1 = thr p c" "panicked c1 = None"
    "failures c1 = failures c"
    by metis
  from deliver_thr(2) [of p r' c1] c1(1,2) assms(5) have "r' = r" by simp
  with c1 deliver_wrong [of p c1 q qs T r] assms(2,3,6)
  have c': "c' = (set_thr p (log_recv r (thr p c)) c1)\<lparr>panicked := Some (InterfaceConversion (map_option type_of r) T)\<rparr>"
    by simp
  then have "panicked c' = Some (InterfaceConversion (map_option type_of r) T)" by simp
  moreover from this have "successors c' = []" by (rule successors_panicked)
  moreover from c' c1 have "rets (thr p c') = rets (thr p c)" "ops (thr p c') = ops (thr p c)"
    "failures c' = failures c"
    by (simp_all add: log_recv_def)
  ultimately show ?thesis by (simp add: test_failed_def)
qed


theorem wrong_variant_fatal_witness:
  "\<exists>c'. c' \<in> set (successors (NewFakeClient [Create (Some \<lparr>Text = ''apples''\<rparr>)]
                                     [AssertAll (Some []) None]))
     \<and> recvd (verifier c') = [Some (createCall (Some \<lparr>Text = ''apples''\<rparr>))]
     \<and> panicked c' = Some (InterfaceConversion (Some T_createCall) T_allCall)
     \<and> rets (verifier c') = [] \<and> failures c' = [] \<and> successors c' = []"
proof -
  let ?c = "NewFakeClient [Create (Some \<lparr>Text = ''apples''\<rparr>)] [AssertAll (Some []) None]"
  let ?r = "Some (createCall (Some \<lparr>Text = ''apples''\<rparr>))"
  let ?c' = "run 1 ?c"
  have s: "successors ?c = [?c']"
    by (simp add: NewFakeClient_def new_thread_def sem)
  have 1: "?c' \<in> set (successors ?c)" by (subst s) simp
  have 2: "ops (thr Verifier ?c) = AssertAll (Some []) None # []"
    by (simp add: NewFakeClient_def new_thread_def)
  have 3: "expects (AssertAll (Some []) None) = Some T_allCall" by simp
  have 4: "next_action (thr Verifier ?c) = Recv"
    by (simp add: NewFakeClient_def new_thread_def next_action_def)
  have 5: "recvd (thr Verifier ?c') = recvd (thr Verifier ?c) @ [?r]"
    by (simp add: NewFakeClient_def new_thread_def sem)
  have 6: "map_option type_of ?r \<noteq> Some T_allCall" by simp
  have 7: "recvd (verifier ?c') = [?r]"
    by (simp add: NewFakeClient_def new_thread_def sem)
  have 8: "rets (thr Verifier ?c) = []" "failures ?c = []"
    by (simp_all add: NewFakeClient_def new_thread_def)
  from wrong_variant_fatal [OF 1 2 3 4 5 6]
  have "panicked ?c' = Some (InterfaceConversion (Some T_createCall) T_allCall)
     \<and> rets (verifier ?c') = [] \<and> failures ?c' = [] \<and> successors ?c' = []"
    unfolding 8 by simp
  with 1 7 show ?thesis by (intro exI [of _ ?c']) simp
qed

text \<open>
  C9: in every execution of any two goroutines over the channel of \<^verbatim>\<open>NewFakeClient\<close>, the
  i-th value one goroutine has sent is the value the i-th receive of the other goroutine
  got, in both directions; on the open channel nothing else was received and nothing is
  in flight (no buffering).  When, after calls and assertions that match, the verifier
  asserts the other method than the one the driver calls, every execution ends in a type
  assertion panic, the calls before it having returned what their assertions supplied and
  the crossed call not having returned; when the verifier has no assertion left, the
  driver's call blocks for ever.  Either way the test fails or hangs, and no call returns
  anything an assertion did not supply.
\<close>

theorem fifo_rendezvous:
  assumes "reachable (NewFakeClient ds vs) c"
  shows "pairs_with (sent (driver c)) (recvd (verifier c))
     \<and> pairs_with (sent (verifier c)) (recvd (driver c))
     \<and> (\<forall>i<length (sent (driver c)). recvd (verifier c) ! i = Some (sent (driver c) ! i))
     \<and> (\<forall>i<length (sent (verifier c)). recvd (driver c) ! i = Some (sent (verifier c) ! i))
     \<and> (\<not> closed c \<longrightarrow> length (recvd (verifier c)) = length (sent (driver c))
                        \<and> length (recvd (driver c)) = length (sent (verifier c)))
     \<and> (list_all2 answers asserts calls \<and> crossed a p \<and> at_rest c
          \<and> ops (driver c) = calls @ p # ds' \<and> ops (verifier c) = asserts @ a # vs' \<longrightarrow>
        (\<exists>c'. forced c c'
           \<and> (panicked c' = Some (InterfaceConversion (Some T_createCall) T_allCall)
              \<or> panicked c' = Some (InterfaceConversion (Some T_allCall) T_createCall))
           \<and> test_failed c' \<and> successors c' = []
           \<and> rets (driver c') = rets (driver c) @ map response asserts
           \<and> ops (driver c') = p # ds'))
     \<and> (list_all2 answers asserts calls \<and> (p = Create n \<or> p = All_notes) \<and> at_rest c
          \<and> ops (driver c) = calls @ p # ds' \<and> ops (verifier c) = asserts \<longrightarrow>
        (\<exists>c'. forced c c' \<and> successors c' = [] \<and> panicked c' = None
           \<and> rets (driver c') = rets (driver c) @ map response asserts
           \<and> ops (driver c') = p # ds'))"
proof -
  from paired_reachable [OF assms paired_init]
  have d: "paired Driver c" and v: "paired Verifier c" by simp_all
  from d have 1: "pairs_with (sent (driver c)) (recvd (verifier c))"
    and l1: "closed c \<or> length (recvd (verifier c)) = length (sent (driver c))"
    by (simp_all add: paired_def)
  from v have 2: "pairs_with (sent (verifier c)) (recvd (driver c))"
    and l2: "closed c \<or> length (recvd (driver c)) = length (sent (verifier c))"
    by (simp_all add: paired_def)
  from 1 have 3: "\<forall>i<length (sent (driver c)). recvd (verifier c) ! i = Some (sent (driver c) ! i)"
    by (simp add: pairs_with_nth)
  from 2 have 4: "\<forall>i<length (sent (verifier c)). recvd (driver c) ! i = Some (sent (verifier c) ! i)"
    by (simp add: pairs_with_nth)
  from l1 l2 have 5: "\<not> closed c \<longrightarrow> length (recvd (verifier c)) = length (sent (driver c))
                        \<and> length (recvd (driver c)) = length (sent (verifier c))"
    by blast
  have 6: "list_all2 answers asserts calls \<and> crossed a p \<and> at_rest c
          \<and> ops (driver c) = calls @ p # ds' \<and> ops (verifier c) = asserts @ a # vs' \<longrightarrow>
        (\<exists>c'. forced c c'
           \<and> (panicked c' = Some (InterfaceConversion (Some T_createCall) T_allCall)
              \<or> panicked c' = Some (InterfaceConversion (Some T_allCall) T_createCall))
           \<and> test_failed c' \<and> successors c' = []
           \<and> rets (driver c') = rets (driver c) @ map response asserts
           \<and> ops (driver c') = p # ds')"
    using crossed_after_matched [of asserts calls a p c ds' vs'] by blast
  have 7: "list_all2 answers asserts calls \<and> (p = Create n \<or> p = All_notes) \<and> at_rest c
          \<and> ops (driver c) = calls @ p # ds' \<and> ops (verifier c) = asserts \<longrightarrow>
        (\<exists>c'. forced c c' \<and> successors c' = [] \<and> panicked c' = None
           \<and> rets (driver c') = rets (driver c) @ map response asserts
           \<and> ops (driver c') = p # ds')"
    using blocked_after_matched [of asserts calls p n c ds'] by blast
  from 1 2 3 4 5 6 7 show ?thesis by (intro conjI)
qed

end
